theory Spec2Isabelle
  imports Complex_Main "HOL-Library.Sublist" "HOL-Library.Multiset" "HOL-Library.AList"
begin

section \<open>Speck viewer: parser, dependency sorter, layout, visibility and routing\<close>

text \<open>
  The development follows \<^verbatim>\<open>speck-server.py\<close>: the Python parser
  (\<^verbatim>\<open>sort_children\<close>, \<^verbatim>\<open>parse_speck_tree\<close>) and the JavaScript of the served page
  (\<^verbatim>\<open>computeSize\<close>, \<^verbatim>\<open>computePositions\<close>, \<^verbatim>\<open>connectionPoints\<close>,
  \<^verbatim>\<open>resolveVisible\<close>, the click handlers).  Module paths and function identities are
  strings, as in the source.  JavaScript numbers are idealised as reals.
\<close>

subsection \<open>Expanded-Set and the click handlers\<close>




text \<open>The Expand-All button (source lines 631-635).\<close>

definition expand_all :: "string set \<Rightarrow> string list \<Rightarrow> string set" where
  "expand_all expanded module_paths = expanded \<union> set module_paths"

subsection \<open>Strings\<close>

text \<open>
  \<^verbatim>\<open>s.split(sep)\<close> for a one-character separator, in Python and in JavaScript: the
  pieces between the occurrences of the separator, always at least one piece.
\<close>

fun split_char :: "char \<Rightarrow> string \<Rightarrow> string list" where
  "split_char sep [] = [[]]"
| "split_char sep (c # cs) =
     (if c = sep then [] # split_char sep cs
      else (c # hd (split_char sep cs)) # tl (split_char sep cs))"

text \<open>
  \<^verbatim>\<open>s.split('::')\<close>: occurrences of the two-character separator are found from the
  left and do not overlap.
\<close>

fun split_dcolon :: "string \<Rightarrow> string list" where
  "split_dcolon [] = [[]]"
| "split_dcolon [c] = [[c]]"
| "split_dcolon (c # d # cs) =
     (if c = CHR '':'' \<and> d = CHR '':'' then [] # split_dcolon cs
      else (c # hd (split_dcolon (d # cs))) # tl (split_dcolon (d # cs)))"

text \<open>\<^verbatim>\<open>s.indexOf('::') !== -1\<close>.\<close>

fun has_dcolon :: "string \<Rightarrow> bool" where
  "has_dcolon (c # d # cs) = ((c = CHR '':'' \<and> d = CHR '':'') \<or> has_dcolon (d # cs))"
| "has_dcolon _ = False"

text \<open>\<^verbatim>\<open>xs.join(sep)\<close>.\<close>

fun join :: "string \<Rightarrow> string list \<Rightarrow> string" where
  "join sep [] = []"
| "join sep [x] = x"
| "join sep (x # y # ys) = x @ sep @ join sep (y # ys)"

subsection \<open>Visibility\<close>

text \<open>
  \<^verbatim>\<open>isModVisible(path)\<close>, source lines 470-479.  The loop runs over
  \<^verbatim>\<open>segments[1], segments[2], ...\<close> with \<^verbatim>\<open>current\<close> as its state.  \<open>split_char\<close> never
  returns the empty list, so \<^verbatim>\<open>segments[0]\<close> is \<open>hd segments\<close>.
\<close>

fun isModVisible_loop :: "string set \<Rightarrow> string \<Rightarrow> string list \<Rightarrow> bool" where
  "isModVisible_loop expanded current [] = True"
| "isModVisible_loop expanded current (seg # rest) =
     (if current \<notin> expanded then False
      else isModVisible_loop expanded (current @ ''/'' @ seg) rest)"

definition isModVisible :: "string set \<Rightarrow> string \<Rightarrow> bool" where
  "isModVisible expanded path =
     (let segments = split_char CHR ''/'' path
      in if length segments \<le> 1 then True
         else isModVisible_loop expanded (hd segments) (tl segments))"

text \<open>\<^verbatim>\<open>isFnVisible(fnId)\<close>, source lines 481-484.\<close>

definition isFnVisible :: "string set \<Rightarrow> string \<Rightarrow> bool" where
  "isFnVisible expanded fnId =
     (let modPath = hd (split_dcolon fnId)
      in isModVisible expanded modPath \<and> modPath \<in> expanded)"

text \<open>
  \<^verbatim>\<open>resolveVisible(fnId)\<close>, source lines 487-500.  The loop is the function
  \<open>resolveVisible_loop\<close> on the index \<open>i\<close> and \<^verbatim>\<open>current\<close>; when the loop ends
  it runs the two last lines of the source function.
\<close>

function resolveVisible_loop :: "string set \<Rightarrow> string \<Rightarrow> string list \<Rightarrow> nat \<Rightarrow> string \<Rightarrow> string" where
  "resolveVisible_loop expanded fnId segments i current =
     (if i < length segments - 1 then
        (if current \<notin> expanded then current
         else resolveVisible_loop expanded fnId segments (i + 1)
                (join ''/'' (take (i + 2) segments)))
      else if current \<in> expanded then fnId else current)"
  by pat_completeness auto
termination
  by (relation "measure (\<lambda>(expanded, fnId, segments, i, current). length segments - i)") auto

definition resolveVisible :: "string set \<Rightarrow> string \<Rightarrow> string" where
  "resolveVisible expanded fnId =
     (let parts = split_dcolon fnId;
          modPath = hd parts;
          segments = split_char CHR ''/'' modPath;
          current = hd segments
      in resolveVisible_loop expanded fnId segments 0 current)"

text \<open>
  The edge map that \<^verbatim>\<open>updateArrows\<close> builds, source lines 575-586, as the list of its
  entries in insertion order; only the entries of this map are drawn.
\<close>

definition edgeMap_step :: "string set \<Rightarrow> string \<times> string \<Rightarrow> (string \<times> string \<times> string) list
    \<Rightarrow> (string \<times> string \<times> string) list" where
  "edgeMap_step expanded e edgeMap =
     (let src = fst e; tgt = snd e;
          rSrc = resolveVisible expanded src;
          rTgt = resolveVisible expanded tgt
      in if rSrc = rTgt then edgeMap
         else (let key = rSrc @ ''>'' @ rTgt
               in if map_of edgeMap key \<noteq> None then edgeMap
                  else edgeMap @ [(key, rSrc, rTgt)]))"

definition updateArrows_edgeMap :: "string set \<Rightarrow> (string \<times> string) list
    \<Rightarrow> (string \<times> string \<times> string) list" where
  "updateArrows_edgeMap expanded function_edges = fold (edgeMap_step expanded) function_edges []"

text \<open>
  The modules on the way from the root to a module, the module itself last, and the same
  without the module itself: the paths made of the first \<open>k\<close> segments.
\<close>

definition chain :: "string \<Rightarrow> string list" where
  "chain modPath =
     (let segments = split_char CHR ''/'' modPath
      in map (\<lambda>k. join ''/'' (take k segments)) [1..<length segments + 1])"

definition strict_ancestors :: "string \<Rightarrow> string list" where
  "strict_ancestors modPath =
     (let segments = split_char CHR ''/'' modPath
      in map (\<lambda>k. join ''/'' (take k segments)) [1..<length segments])"


subsection \<open>Connection-side selection\<close>

record box =
  bx :: real
  by' :: real
  bw :: real
  bh :: real

record conn =
  sx :: real
  sy :: real
  tx :: real
  ty :: real

definition ARROW_W :: real where
  "ARROW_W = 10"

text \<open>\<^verbatim>\<open>connectionPoints(s, t)\<close>, source lines 373-402.\<close>

definition connectionPoints :: "box \<Rightarrow> box \<Rightarrow> conn" where
  "connectionPoints s t =
     (let hGap = max (max (bx t - (bx s + bw s)) (bx s - (bx t + bw t))) 0;
          vGap = max (max (by' t - (by' s + bh s)) (by' s - (by' t + bh t))) 0;
          sCx = bx s + bw s / 2; sCy = by' s + bh s / 2;
          tCx = bx t + bw t / 2; tCy = by' t + bh t / 2
      in if hGap \<ge> vGap then
           (if tCx \<ge> sCx then
              \<lparr>sx = bx s + bw s, sy = sCy, tx = bx t - ARROW_W, ty = tCy\<rparr>
            else
              \<lparr>sx = bx s, sy = sCy, tx = bx t + bw t + ARROW_W, ty = tCy\<rparr>)
         else
           (let overlapL = max (bx s) (bx t);
                overlapR = min (bx s + bw s) (bx t + bw t);
                sharedX = (if overlapL < overlapR then (overlapL + overlapR) / 2
                           else (sCx + tCx) / 2)
            in if tCy \<ge> sCy then
                 \<lparr>sx = sharedX, sy = by' s + bh s, tx = sharedX, ty = by' t - ARROW_W\<rparr>
               else
                 \<lparr>sx = sharedX, sy = by' s, tx = sharedX, ty = by' t + bh t + ARROW_W\<rparr>))"

text \<open>
  The gap between two closed intervals \<open>[a1, a2]\<close> and \<open>[b1, b2]\<close> in the words of the
  specification: their distance, and 0 when they overlap.  Used only to state what the
  code's \<^verbatim>\<open>Math.max(.., .., 0)\<close> computes.
\<close>

definition spec_gap :: "real \<Rightarrow> real \<Rightarrow> real \<Rightarrow> real \<Rightarrow> real" where
  "spec_gap a1 a2 b1 b2 = (if a2 < b1 then b1 - a2 else if b2 < a1 then a1 - b2 else 0)"

definition spec_hGap :: "box \<Rightarrow> box \<Rightarrow> real" where
  "spec_hGap s t = spec_gap (bx s) (bx s + bw s) (bx t) (bx t + bw t)"

definition spec_vGap :: "box \<Rightarrow> box \<Rightarrow> real" where
  "spec_vGap s t = spec_gap (by' s) (by' s + bh s) (by' t) (by' t + bh t)"

subsection \<open>Errors\<close>

text \<open>
  The exceptions the modelled code can raise: Python's \<^verbatim>\<open>KeyError\<close> on a missing
  dictionary key and \<^verbatim>\<open>RecursionError\<close> when the recursion limit is reached,
  JavaScript's \<^verbatim>\<open>TypeError\<close> on reading a property of \<^verbatim>\<open>undefined\<close> and
  \<^verbatim>\<open>RangeError\<close> when the call stack is exhausted.  A function that can raise returns
  \<open>error + 'a\<close>, \<open>Inl\<close> the exception.
\<close>

datatype error = KeyError | RecursionError | TypeError | RangeError

subsection \<open>Dependency sorter\<close>

text \<open>
  A Python dictionary whose entries are read and written by key is an association list:
  \<open>map_of\<close> reads, \<open>AList.update\<close> writes (in place for a present key, at the end for a
  new one, as Python's insertion order).
\<close>

type_synonym ('k, 'v) dict = "('k \<times> 'v) list"

text \<open>\<^verbatim>\<open>cp.split("/")[-1]\<close>\<close>

definition last_segment :: "string \<Rightarrow> string" where
  "last_segment cp = last (split_char CHR ''/'' cp)"

text \<open>\<^verbatim>\<open>{cp: v for cp in children}\<close>\<close>

definition dict_of_keys :: "'k list \<Rightarrow> 'v \<Rightarrow> ('k, 'v) dict" where
  "dict_of_keys ks v = fold (\<lambda>k d. AList.update k v d) ks []"

text \<open>\<^verbatim>\<open>{cp.split("/")[-1]: cp for cp in children}\<close>; only \<^verbatim>\<open>.get\<close> reads it.\<close>

definition name_to_path_of :: "string list \<Rightarrow> (string \<rightharpoonup> string)" where
  "name_to_path_of children = fold (\<lambda>cp m. m(last_segment cp \<mapsto> cp)) children Map.empty"

text \<open>\<^verbatim>\<open>child_deps.get(cname, [])\<close>\<close>

definition deps_get :: "(string \<rightharpoonup> string list) \<Rightarrow> string \<Rightarrow> string list" where
  "deps_get child_deps cname = (case child_deps cname of None \<Rightarrow> [] | Some ds \<Rightarrow> ds)"

text \<open>
  The inner loop of source lines 32-36, over the dependency names of one child.
  \<^verbatim>\<open>if dep_path:\<close> is false for \<^verbatim>\<open>None\<close> and for the empty string.
\<close>

fun build_inner :: "(string \<rightharpoonup> string) \<Rightarrow> string \<Rightarrow> string list
    \<Rightarrow> (string, string list) dict \<times> (string, int) dict
    \<Rightarrow> error + (string, string list) dict \<times> (string, int) dict" where
  "build_inner name_to_path cp [] (adj, in_deg) = Inr (adj, in_deg)"
| "build_inner name_to_path cp (dep_name # rest) (adj, in_deg) =
     (case name_to_path dep_name of
        None \<Rightarrow> build_inner name_to_path cp rest (adj, in_deg)
      | Some dep_path \<Rightarrow>
          if dep_path = [] then build_inner name_to_path cp rest (adj, in_deg)
          else (case map_of adj cp of
                  None \<Rightarrow> Inl KeyError
                | Some l \<Rightarrow>
                    (case map_of in_deg dep_path of
                       None \<Rightarrow> Inl KeyError
                     | Some v \<Rightarrow>
                         build_inner name_to_path cp rest
                           (AList.update cp (l @ [dep_path]) adj,
                            AList.update dep_path (v + 1) in_deg))))"

text \<open>The outer loop of source lines 30-36.\<close>

fun build_graph :: "(string \<rightharpoonup> string) \<Rightarrow> (string \<rightharpoonup> string list) \<Rightarrow> string list
    \<Rightarrow> (string, string list) dict \<times> (string, int) dict
    \<Rightarrow> error + (string, string list) dict \<times> (string, int) dict" where
  "build_graph name_to_path child_deps [] s = Inr s"
| "build_graph name_to_path child_deps (cp # cps) s =
     (let cname = last_segment cp
      in case build_inner name_to_path cp (deps_get child_deps cname) s of
           Inl e \<Rightarrow> Inl e
         | Inr s' \<Rightarrow> build_graph name_to_path child_deps cps s')"

text \<open>The loop of source lines 43-46, over \<^verbatim>\<open>adj[node]\<close>.\<close>

fun relax :: "string list \<Rightarrow> (string, int) dict \<times> string list
    \<Rightarrow> error + (string, int) dict \<times> string list" where
  "relax [] (in_deg, queue) = Inr (in_deg, queue)"
| "relax (dep # deps) (in_deg, queue) =
     (case map_of in_deg dep of
        None \<Rightarrow> Inl KeyError
      | Some v \<Rightarrow>
          relax deps (AList.update dep (v - 1) in_deg,
                      if v - 1 = 0 then queue @ [dep] else queue))"

text \<open>
  The number of entries of \<open>in_deg\<close> with a positive count: each pass of the
  \<^verbatim>\<open>while queue\<close> loop removes one node from the queue, and adds a node only when
  the count of that node falls from 1 to 0.
\<close>

definition npos :: "(string, int) dict \<Rightarrow> nat" where
  "npos in_deg = length (filter (\<lambda>kv. 0 < snd kv) in_deg)"

lemma npos_update:
  "map_of in_deg k = Some v \<Longrightarrow>
   npos (AList.update k (v - 1) in_deg) + (if v = 1 then 1 else 0) = npos in_deg"
  by (induction in_deg) (auto simp: npos_def)

lemma relax_measure:
  "relax deps (in_deg, queue) = Inr (in_deg', queue') \<Longrightarrow>
   length queue' + npos in_deg' \<le> length queue + npos in_deg"
proof (induction deps arbitrary: in_deg queue)
  case Nil
  then show ?case by simp
next
  case (Cons dep deps)
  from Cons.prems obtain v where v: "map_of in_deg dep = Some v"
    and r: "relax deps (AList.update dep (v - 1) in_deg,
                        if v - 1 = 0 then queue @ [dep] else queue) = Inr (in_deg', queue')"
    by (auto split: option.splits)
  from Cons.IH[OF r] npos_update[OF v]
  show ?case by (auto split: if_splits)
qed

text \<open>The \<^verbatim>\<open>while queue\<close> loop of source lines 40-46.\<close>

function kahn :: "(string, string list) dict \<Rightarrow> (string, int) dict \<Rightarrow> string list \<Rightarrow> string list
    \<Rightarrow> error + string list" where
  "kahn adj in_deg [] result = Inr result"
| "kahn adj in_deg (node # queue) result =
     (case map_of adj node of
        None \<Rightarrow> Inl KeyError
      | Some deps \<Rightarrow>
          (case relax deps (in_deg, queue) of
             Inl e \<Rightarrow> Inl e
           | Inr (in_deg', queue') \<Rightarrow> kahn adj in_deg' queue' (result @ [node])))"
  by pat_completeness auto
termination
proof (relation "measure (\<lambda>(adj, in_deg, queue, result). length queue + npos in_deg)", goal_cases)
  case 1
  show ?case by simp
next
  case (2 adj in_deg node queue result deps x in_deg' queue')
  then have "relax deps (in_deg, queue) = Inr (in_deg', queue')" by simp
  from relax_measure[OF this] show ?case by simp
qed

text \<open>The last loop, source lines 48-50.\<close>

definition append_missing :: "string list \<Rightarrow> string list \<Rightarrow> string list" where
  "append_missing children result =
     fold (\<lambda>cp result. if cp \<notin> set result then result @ [cp] else result) children result"

text \<open>\<^verbatim>\<open>sort_children(children, child_deps)\<close>, source lines 24-52.\<close>

definition sort_children :: "string list \<Rightarrow> (string \<rightharpoonup> string list) \<Rightarrow> error + string list" where
  "sort_children children child_deps =
     (let name_to_path = name_to_path_of children;
          in_deg = dict_of_keys children (0 :: int);
          adj = dict_of_keys children ([] :: string list)
      in case build_graph name_to_path child_deps children (adj, in_deg) of
           Inl e \<Rightarrow> Inl e
         | Inr (adj, in_deg) \<Rightarrow>
             (let queue = filter (\<lambda>cp. map_of in_deg cp = Some 0) children
              in case kahn adj in_deg queue [] of
                   Inl e \<Rightarrow> Inl e
                 | Inr result \<Rightarrow> Inr (append_missing children result)))"

subsection \<open>The dependency graph of a sibling list\<close>

text \<open>
  The graph that \<open>sort_children\<close> works on, written without the dictionaries: the paths
  that the declared dependency names of one child resolve to (names that are not the last
  segment of a sibling are skipped, as is an empty path), and the edges (dependent,
  dependency) of the whole sibling list.
\<close>

definition resolved_deps :: "(string \<rightharpoonup> string) \<Rightarrow> string list \<Rightarrow> string list" where
  "resolved_deps name_to_path dep_names =
     concat (map (\<lambda>dep_name. case name_to_path dep_name of
                                 None \<Rightarrow> []
                               | Some dep_path \<Rightarrow> if dep_path = [] then [] else [dep_path])
                 dep_names)"

definition dep_targets :: "string list \<Rightarrow> (string \<rightharpoonup> string list) \<Rightarrow> string \<Rightarrow> string list" where
  "dep_targets children child_deps cp =
     resolved_deps (name_to_path_of children) (deps_get child_deps (last_segment cp))"


text \<open>\<open>before n d r\<close>: \<open>d\<close> occurs in \<open>r\<close> with an occurrence of \<open>n\<close> to its left.\<close>

definition before :: "'a \<Rightarrow> 'a \<Rightarrow> 'a list \<Rightarrow> bool" where
  "before n d r = (\<exists>r1 r2. r = r1 @ d # r2 \<and> n \<in> set r1)"


text \<open>
  The invariant of the \<^verbatim>\<open>while queue\<close> loop for a sibling list without repetitions:
  \<open>pending\<close> lists the dependency edges that leave a node not yet emitted, the counter of
  every sibling is the number of pending edges into it, the queue and the result hold
  exactly the siblings with counter 0, and every emitted sibling comes after its dependents.
\<close>

definition pending :: "string list \<Rightarrow> (string \<Rightarrow> string list) \<Rightarrow> string list \<Rightarrow> string list" where
  "pending cs T result = concat (map T (filter (\<lambda>n. n \<notin> set result) cs))"

definition kahn_inv :: "string list \<Rightarrow> (string \<Rightarrow> string list) \<Rightarrow> (string, int) dict
    \<Rightarrow> string list \<Rightarrow> string list \<Rightarrow> bool" where
  "kahn_inv cs T in_deg queue result \<longleftrightarrow>
     distinct (result @ queue) \<and> set (result @ queue) \<subseteq> set cs
     \<and> (\<forall>d. map_of in_deg d
             = (if d \<in> set cs then Some (int (count_list (pending cs T result) d)) else None))
     \<and> (\<forall>d \<in> set cs. count_list (pending cs T result) d = 0 \<longleftrightarrow> d \<in> set (result @ queue))
     \<and> (\<forall>d \<in> set result. \<forall>n \<in> set cs. d \<in> set (T n) \<longrightarrow> before n d result)"


subsection \<open>Tree builder\<close>

text \<open>
  \<^verbatim>\<open>d.strip()\<close>: Python's white space among the ASCII characters.
\<close>

definition is_space :: "char \<Rightarrow> bool" where
  "is_space c = ((of_char c :: nat) \<in> {9, 10, 11, 12, 13, 28, 29, 30, 31, 32})"

definition strip :: "string \<Rightarrow> string" where
  "strip s = rev (dropWhile is_space (rev (dropWhile is_space s)))"

text \<open>\<^verbatim>\<open>[d.strip() for d in m.group(2).split(',') if d.strip()]\<close>\<close>

definition parse_deps :: "string \<Rightarrow> string list" where
  "parse_deps group2 = map strip (filter (\<lambda>d. strip d \<noteq> []) (split_char CHR '','' group2))"

text \<open>
  \<^verbatim>\<open>s.rsplit("::", 1)[0]\<close>: the text before the last occurrence of \<open>::\<close>, found from
  the right, and the whole string when there is none.
\<close>

fun after_first_dcolon :: "string \<Rightarrow> string option" where
  "after_first_dcolon (c # d # cs) =
     (if c = CHR '':'' \<and> d = CHR '':'' then Some cs else after_first_dcolon (d # cs))"
| "after_first_dcolon _ = None"

definition rsplit_dcolon_hd :: "string \<Rightarrow> string" where
  "rsplit_dcolon_hd s = (case after_first_dcolon (rev s) of None \<Rightarrow> s | Some r \<Rightarrow> rev r)"

record module =
  m_name :: string
  m_path :: string
  m_children :: "string list"
  m_functions :: "string list"
  m_depth :: nat

text \<open>The two accumulators that the closure \<^verbatim>\<open>parse_module\<close> mutates.\<close>

record pstate =
  modules :: "(string, module) dict"
  function_edges :: "(string \<times> string) list"

record graph =
  g_modules :: "(string, module) dict"
  g_function_edges :: "(string \<times> string) list"
  g_module_edges :: "(string \<times> string) list"
  g_root :: string

text \<open>
  What the parser takes from Python's library, as parameters: the file system
  (\<open>read_text\<close> is \<open>None\<close> for a path where \<^verbatim>\<open>exists()\<close> is false), the path
  operations of \<^verbatim>\<open>pathlib\<close> and \<^verbatim>\<open>os.path\<close> on paths written as strings
  (\<open>child_file d name\<close> is \<^verbatim>\<open>d / name / f"{name}.speck"\<close>, \<open>normpath_join d p\<close> is
  \<^verbatim>\<open>os.path.normpath(os.path.join(str(d), p))\<close>), and the three regular-expression
  scans, each returning the groups 1 and 2 of its matches in order.
\<close>

record oslib =
  read_text :: "string \<rightharpoonup> string"
  path_parent :: "string \<Rightarrow> string"
  path_name :: "string \<Rightarrow> string"
  child_file :: "string \<Rightarrow> string \<Rightarrow> string"
  normpath_join :: "string \<Rightarrow> string \<Rightarrow> string"
  find_mods :: "string \<Rightarrow> (string \<times> string) list"
  find_defs :: "string \<Rightarrow> (string \<times> string) list"
  find_refs :: "string \<Rightarrow> (string \<times> string) list"

text \<open>The loop over the function declarations, source lines 81-97.\<close>

definition scan_defs :: "oslib \<Rightarrow> string \<Rightarrow> string \<Rightarrow> string
    \<Rightarrow> string list \<times> (string \<times> string) list" where
  "scan_defs lib content file_dir mod_path =
     (let defs = find_defs lib content
      in (map fst defs,
          concat (map (\<lambda>(fn_name, body).
                    map (\<lambda>(ref_path, ref_fn).
                           (mod_path @ ''::'' @ fn_name,
                            normpath_join lib file_dir ref_path @ ''::'' @ ref_fn))
                        (find_refs lib body))
                  defs)))"

text \<open>
  \<^verbatim>\<open>parse_module\<close>, source lines 63-107, and its loop over the module declarations
  (\<open>parse_mods\<close>, source lines 73-79).  The first argument after the library is the
  number of nested calls that Python's recursion limit still allows.
\<close>

fun parse_module :: "oslib \<Rightarrow> nat \<Rightarrow> string \<Rightarrow> string \<Rightarrow> nat \<Rightarrow> pstate \<Rightarrow> error + pstate"
and parse_mods :: "oslib \<Rightarrow> nat \<Rightarrow> string \<Rightarrow> string \<Rightarrow> nat \<Rightarrow> (string \<times> string) list
    \<Rightarrow> string list \<times> (string \<rightharpoonup> string list) \<Rightarrow> pstate
    \<Rightarrow> error + (string list \<times> (string \<rightharpoonup> string list)) \<times> pstate" where
  "parse_module lib 0 speck_file mod_path depth st = Inl RecursionError"
| "parse_module lib (Suc fuel) speck_file mod_path depth st =
     (case read_text lib speck_file of
        None \<Rightarrow> Inr st
      | Some content \<Rightarrow>
          (let file_dir = path_parent lib speck_file
           in case parse_mods lib fuel file_dir mod_path depth (find_mods lib content)
                     ([], Map.empty) st of
                Inl e \<Rightarrow> Inl e
              | Inr ((children, child_deps), st1) \<Rightarrow>
                  (let (fns, edges) = scan_defs lib content file_dir mod_path;
                       st2 = st1\<lparr>function_edges := function_edges st1 @ edges\<rparr>
                   in case sort_children children child_deps of
                        Inl e \<Rightarrow> Inl e
                      | Inr sorted_children \<Rightarrow>
                          Inr (st2\<lparr>modules := AList.update mod_path
                                  \<lparr>m_name = last_segment mod_path, m_path = mod_path,
                                   m_children = sorted_children, m_functions = fns,
                                   m_depth = depth\<rparr> (modules st2)\<rparr>))))"
| "parse_mods lib fuel file_dir mod_path depth [] acc st = Inr (acc, st)"
| "parse_mods lib fuel file_dir mod_path depth ((name, group2) # ms) (children, child_deps) st =
     (let deps = parse_deps group2;
          child_path = mod_path @ ''/'' @ name;
          children' = children @ [child_path];
          child_deps' = child_deps(name \<mapsto> deps)
      in case parse_module lib fuel (child_file lib file_dir name) child_path (depth + 1) st of
           Inl e \<Rightarrow> Inl e
         | Inr st' \<Rightarrow> parse_mods lib fuel file_dir mod_path depth ms (children', child_deps') st')"

text \<open>
  One pass of the loop of source lines 112-116.  The Python set of pairs is the list of
  its members without repetition; the order in which Python lists them is not specified
  and nothing below depends on it.
\<close>

definition mod_edge_add :: "string \<times> string \<Rightarrow> (string \<times> string) list \<Rightarrow> (string \<times> string) list" where
  "mod_edge_add e mod_edge_set =
     (let src_mod = rsplit_dcolon_hd (fst e);
          tgt_mod = rsplit_dcolon_hd (snd e)
      in if src_mod \<noteq> tgt_mod then
           (if (src_mod, tgt_mod) \<in> set mod_edge_set then mod_edge_set
            else mod_edge_set @ [(src_mod, tgt_mod)])
         else mod_edge_set)"

text \<open>\<^verbatim>\<open>parse_speck_tree\<close>, source lines 55-123.\<close>

definition parse_speck_tree :: "oslib \<Rightarrow> nat \<Rightarrow> string \<Rightarrow> error + graph" where
  "parse_speck_tree lib fuel root_file =
     (let root_name = path_name lib (path_parent lib root_file)
      in case parse_module lib fuel root_file root_name 0
                \<lparr>modules = [], function_edges = []\<rparr> of
           Inl e \<Rightarrow> Inl e
         | Inr st \<Rightarrow>
             (let mod_edge_set = fold mod_edge_add (function_edges st) []
              in Inr \<lparr>g_modules = modules st, g_function_edges = function_edges st,
                      g_module_edges = mod_edge_set, g_root = root_name\<rparr>))"


subsection \<open>Tree of nodes\<close>

text \<open>
  The node objects that \<^verbatim>\<open>buildTree\<close> makes.  The last six fields are the ones that
  the layout passes assign later (\<^verbatim>\<open>w, h, _fnAreaH, _secGap, x, y\<close>); a new node does
  not have them, which is modelled by the value 0.
\<close>

datatype node = Node (n_name: string) (n_path: string) (n_depth: nat)
  (n_functions: "string list") (n_childNodes: "node list")
  (n_w: real) (n_h: real) (n_fnAreaH: real) (n_secGap: real) (n_x: real) (n_y: real)

text \<open>
  \<^verbatim>\<open>buildTree(g)\<close>, source lines 276-286.  \<^verbatim>\<open>g.modules[modPath]\<close> is
  \<^verbatim>\<open>undefined\<close> for a path without an entry, and reading \<^verbatim>\<open>mod.name\<close> then throws
  a TypeError.  The first argument bounds the depth of the call stack.
\<close>

fun build :: "nat \<Rightarrow> (string, module) dict \<Rightarrow> string \<Rightarrow> error + node"
and build_children :: "nat \<Rightarrow> (string, module) dict \<Rightarrow> string list \<Rightarrow> error + node list" where
  "build 0 mods modPath = Inl RangeError"
| "build (Suc fuel) mods modPath =
     (case map_of mods modPath of
        None \<Rightarrow> Inl TypeError
      | Some m \<Rightarrow>
          (case build_children fuel mods (m_children m) of
             Inl e \<Rightarrow> Inl e
           | Inr cs \<Rightarrow>
               Inr (Node (m_name m) (m_path m) (m_depth m) (m_functions m) cs
                      0 0 0 0 0 0)))"
| "build_children fuel mods [] = Inr []"
| "build_children fuel mods (p # ps) =
     (case build fuel mods p of
        Inl e \<Rightarrow> Inl e
      | Inr c \<Rightarrow>
          (case build_children fuel mods ps of
             Inl e \<Rightarrow> Inl e
           | Inr cs \<Rightarrow> Inr (c # cs)))"

definition buildTree :: "nat \<Rightarrow> graph \<Rightarrow> error + node" where
  "buildTree fuel g = build fuel (g_modules g) (g_root g)"

text \<open>
  A small source tree used for concrete evaluations: \<open>app/app.speck\<close> declares the modules
  \<open>a\<close> and \<open>b\<close>, \<open>b\<close> depending on \<open>a\<close>, and a function \<open>main\<close>; \<open>app/b/b.speck\<close>
  declares \<open>bar\<close>, which calls \<open>../a::foo\<close>, and \<open>baz\<close>, which calls \<open>./::bar\<close>; there is
  no file \<open>app/a/a.speck\<close>.  The contents of the files are abbreviated by \<open>M\<close> and \<open>B\<close>,
  the bodies of the functions by \<open>X\<close> and \<open>Y\<close>.
\<close>

definition example_lib :: oslib where
  "example_lib =
     \<lparr>read_text = [''app/app.speck'' \<mapsto> ''M'', ''app/b/b.speck'' \<mapsto> ''B''],
      path_parent = (\<lambda>p. if p = ''app/app.speck'' then ''app'' else ''app/b''),
      path_name = (\<lambda>p. p),
      child_file = (\<lambda>d n. d @ ''/'' @ n @ ''/'' @ n @ ''.speck''),
      normpath_join = (\<lambda>d r. if r = ''../a'' then ''app/a'' else ''app/b''),
      find_mods = (\<lambda>c. if c = ''M'' then [(''a'', []), (''b'', '' a '')] else []),
      find_defs = (\<lambda>c. if c = ''M'' then [(''main'', [])]
                        else [(''bar'', ''X''), (''baz'', ''Y'')]),
      find_refs = (\<lambda>b. if b = ''X'' then [(''../a'', ''foo'')]
                        else if b = ''Y'' then [(''.'', ''bar'')] else [])\<rparr>"

definition example_graph :: graph where
  "example_graph =
     \<lparr>g_modules =
        [(''app/b'', \<lparr>m_name = ''b'', m_path = ''app/b'', m_children = [],
                      m_functions = [''bar'', ''baz''], m_depth = 1\<rparr>),
         (''app'', \<lparr>m_name = ''app'', m_path = ''app'', m_children = [''app/b'', ''app/a''],
                    m_functions = [''main''], m_depth = 0\<rparr>)],
      g_function_edges = [(''app/b::bar'', ''app/a::foo''), (''app/b::baz'', ''app/b::bar'')],
      g_module_edges = [(''app/b'', ''app/a'')],
      g_root = ''app''\<rparr>"

section \<open>Theorems\<close>

subsection \<open>Strings, visibility and the edge map: auxiliary facts\<close>

lemma split_char_nonempty [simp]: "split_char sep s \<noteq> []"
  by (induction s) auto

lemma split_dcolon_nonempty [simp]: "split_dcolon s \<noteq> []"
  by (induction s rule: split_dcolon.induct) simp_all

lemma join_snoc: "xs \<noteq> [] \<Longrightarrow> join sep (xs @ [y]) = join sep xs @ sep @ y"
proof (induction sep xs rule: join.induct)
  case (3 sep x z zs)
  then have "join sep ((z # zs) @ [y]) = join sep (z # zs) @ sep @ y" by simp
  then show ?case by simp
qed simp_all

lemma split_char_no_sep: "w \<in> set (split_char sep s) \<Longrightarrow> sep \<notin> set w"
proof (induction s arbitrary: w)
  case Nil
  then show ?case by simp
next
  case (Cons c s)
  obtain v vs where r: "split_char sep s = v # vs"
    by (cases "split_char sep s") auto
  with Cons show ?case by (auto split: if_splits)
qed

lemma join_split_char: "join [sep] (split_char sep s) = s"
  apply (induction s)
   apply simp
  subgoal for c s
    by (cases "split_char sep s"; cases "tl (split_char sep s)") auto
  done

lemma split_char_append_nosep:
  "sep \<notin> set x \<Longrightarrow> split_char sep (x @ sep # s) = x # split_char sep s"
proof (induction x)
  case Nil
  show ?case by simp
next
  case (Cons c x)
  then have "split_char sep (x @ sep # s) = x # split_char sep s" and "c \<noteq> sep" by auto
  then show ?case by simp
qed

lemma split_char_nosep: "sep \<notin> set x \<Longrightarrow> split_char sep x = [x]"
  by (induction x) auto

lemma split_char_join:
  "xs \<noteq> [] \<Longrightarrow> \<forall>x \<in> set xs. sep \<notin> set x \<Longrightarrow> split_char sep (join [sep] xs) = xs"
proof (induction xs)
  case Nil
  then show ?case by simp
next
  case (Cons x xs)
  show ?case
  proof (cases xs)
    case Nil
    with Cons show ?thesis by (simp add: split_char_nosep)
  next
    case (Cons y ys)
    with Cons.IH Cons.prems have "split_char sep (join [sep] (y # ys)) = y # ys" by simp
    moreover have "sep \<notin> set x" using Cons.prems by simp
    ultimately show ?thesis using Cons
      by (simp add: split_char_append_nosep)
  qed
qed

lemma has_dcolon_hd_split: "\<not> has_dcolon (hd (split_dcolon s))"
proof (induction s rule: split_dcolon.induct)
  case (3 c d cs)
  show ?case
  proof (cases "c = CHR '':'' \<and> d = CHR '':''")
    case True then show ?thesis by simp
  next
    case False
    with 3 have ih: "\<not> has_dcolon (hd (split_dcolon (d # cs)))" by simp
    show ?thesis
    proof (cases "hd (split_dcolon (d # cs))")
      case Nil with False show ?thesis by simp
    next
      case (Cons e es)
      have "e = d \<or> (d = CHR '':'' \<and> cs \<noteq> [] \<and> hd cs = CHR '':'')"
        using Cons by (cases cs) (auto split: if_splits)
      with Cons False ih show ?thesis by (auto split: if_splits)
    qed
  qed
qed simp_all

lemma has_dcolon_prefix: "prefix p s \<Longrightarrow> has_dcolon p \<Longrightarrow> has_dcolon s"
proof (induction p arbitrary: s rule: has_dcolon.induct)
  case (1 c d cs)
  from \<open>prefix (c # d # cs) s\<close> obtain s1 where s1: "s = c # s1" "prefix (d # cs) s1"
    by (cases s) simp_all
  then obtain t where t: "s1 = d # t"
    by (cases s1) simp_all
  show ?case
  proof (cases "c = CHR '':'' \<and> d = CHR '':''")
    case True
    with s1 t show ?thesis by simp
  next
    case False
    with 1 have "has_dcolon (d # cs)" by simp
    with 1 False s1 have "has_dcolon s1" by blast
    with s1 t show ?thesis by simp
  qed
qed simp_all

lemma split_dcolon_no_dcolon: "\<not> has_dcolon s \<Longrightarrow> split_dcolon s = [s]"
  by (induction s rule: split_dcolon.induct) auto

lemma prefix_join_take: "prefix (join sep (take k xs)) (join sep xs)"
proof (induction sep xs arbitrary: k rule: join.induct)
  case (1 sep)
  show ?case by simp
next
  case (2 sep x)
  show ?case by (cases k) simp_all
next
  case (3 sep x y ys)
  show ?case
  proof (cases k)
    case 0 then show ?thesis by simp
  next
    case (Suc j)
    show ?thesis
    proof (cases j)
      case 0 with Suc show ?thesis by simp
    next
      case (Suc i)
      have "prefix (join sep (take j (y # ys))) (join sep (y # ys))" by (rule 3)
      with Suc \<open>k = Suc j\<close> show ?thesis by simp
    qed
  qed
qed


lemma take1_hd: "xs \<noteq> [] \<Longrightarrow> join sep (take (Suc 0) xs) = hd xs"
  by (cases xs) simp_all

lemma resolveVisible_loop_find:
  "i < length segs \<Longrightarrow>
   resolveVisible_loop E f segs i (join ''/'' (take (i + 1) segs))
     = (case find (\<lambda>p. p \<notin> E) (map (\<lambda>k. join ''/'' (take k segs)) [i + 1..<length segs + 1])
        of Some p \<Rightarrow> p | None \<Rightarrow> f)"
proof (induction "length segs - i" arbitrary: i)
  case 0
  then show ?case by simp
next
  case (Suc n)
  let ?cur = "join ''/'' (take (i + 1) segs)"
  have up: "[i + 1..<length segs + 1] = (i + 1) # [i + 2..<length segs + 1]"
    using Suc.prems by (simp add: upt_conv_Cons)
  show ?case
  proof (cases "i < length segs - 1")
    case True
    then have i1: "i + 1 < length segs" by simp
    have n: "n = length segs - (i + 1)" using Suc.hyps(2) by simp
    have ih: "resolveVisible_loop E f segs (i + 1) (join ''/'' (take (i + 1 + 1) segs))
      = (case find (\<lambda>p. p \<notin> E) (map (\<lambda>k. join ''/'' (take k segs)) [i + 1 + 1..<length segs + 1])
         of Some p \<Rightarrow> p | None \<Rightarrow> f)"
      by (rule Suc.hyps(1)[OF n i1])
    have "resolveVisible_loop E f segs i ?cur
            = (if ?cur \<notin> E then ?cur
               else resolveVisible_loop E f segs (i + 1) (join ''/'' (take (i + 2) segs)))"
      using True by (subst resolveVisible_loop.simps) simp
    with ih show ?thesis unfolding up by (simp add: numeral_2_eq_2)
  next
    case False
    with Suc.prems have e: "i + 1 = length segs" by simp
    then have "[i + 2..<length segs + 1] = []" by simp
    moreover have "resolveVisible_loop E f segs i ?cur = (if ?cur \<in> E then f else ?cur)"
      using False by (subst resolveVisible_loop.simps) simp
    ultimately show ?thesis unfolding up by simp
  qed
qed

lemma resolveVisible_find:
  "resolveVisible E f
     = (case find (\<lambda>p. p \<notin> E) (chain (hd (split_dcolon f))) of Some p \<Rightarrow> p | None \<Rightarrow> f)"
proof -
  let ?segs = "split_char CHR ''/'' (hd (split_dcolon f))"
  have "0 < length ?segs" by simp
  from resolveVisible_loop_find[OF this, of E f]
  show ?thesis
    by (simp add: resolveVisible_def chain_def Let_def take1_hd)
qed

lemma hd_split_dcolon_append:
  "CHR '':'' \<notin> set m \<Longrightarrow> hd (split_dcolon (m @ ''::'' @ fn)) = m"
proof (induction m)
  case Nil
  show ?case by simp
next
  case (Cons c m)
  then have ih: "hd (split_dcolon (m @ ''::'' @ fn)) = m" and c: "c \<noteq> CHR '':''" by auto
  obtain d ds where d: "m @ ''::'' @ fn = d # ds" by (cases m) auto
  with ih c show ?case by simp
qed

lemma edgeMap_step_inv:
  assumes "\<forall>(key, src, tgt) \<in> set em. src \<noteq> tgt \<and> (\<exists>(s, t) \<in> S. src = resolveVisible E s \<and> tgt = resolveVisible E t)"
    and "e \<in> S"
  shows "\<forall>(key, src, tgt) \<in> set (edgeMap_step E e em). src \<noteq> tgt \<and> (\<exists>(s, t) \<in> S. src = resolveVisible E s \<and> tgt = resolveVisible E t)"
  using assms by (cases e) (auto simp: edgeMap_step_def Let_def)

lemma fold_edgeMap_step_inv:
  assumes "\<forall>(key, src, tgt) \<in> set em. src \<noteq> tgt \<and> (\<exists>(s, t) \<in> S. src = resolveVisible E s \<and> tgt = resolveVisible E t)"
    and "set es \<subseteq> S"
  shows "\<forall>(key, src, tgt) \<in> set (fold (edgeMap_step E) es em). src \<noteq> tgt \<and> (\<exists>(s, t) \<in> S. src = resolveVisible E s \<and> tgt = resolveVisible E t)"
  using assms
proof (induction es arbitrary: em)
  case Nil
  then show ?case by simp
next
  case (Cons e es)
  have "e \<in> S" using Cons.prems(2) by simp
  from edgeMap_step_inv[OF Cons.prems(1) this] Cons.prems(2)
  show ?case by (simp add: Cons.IH)
qed

lemma edgeMap_internal_dropped:
  "resolveVisible E s = resolveVisible E t \<Longrightarrow> edgeMap_step E (s, t) em = em"
  by (simp add: edgeMap_step_def)


lemma isModVisible_loop_iff:
  "1 \<le> j \<Longrightarrow> j \<le> length segs \<Longrightarrow>
   isModVisible_loop E (join ''/'' (take j segs)) (drop j segs)
     = (\<forall>k \<in> {j..<length segs}. join ''/'' (take k segs) \<in> E)"
proof (induction "length segs - j" arbitrary: j)
  case 0
  then show ?case by simp
next
  case (Suc n)
  then have j: "j < length segs" by simp
  have d: "drop j segs = segs ! j # drop (Suc j) segs"
    using j by (simp add: Cons_nth_drop_Suc)
  have ne: "take j segs \<noteq> []" using Suc.prems j by (cases segs; cases j) auto
  have t: "join ''/'' (take (Suc j) segs) = join ''/'' (take j segs) @ ''/'' @ segs ! j"
    using j ne by (simp add: take_Suc_conv_app_nth join_snoc)
  have n: "n = length segs - Suc j" using Suc.hyps(2) by simp
  have ih: "isModVisible_loop E (join ''/'' (take (Suc j) segs)) (drop (Suc j) segs)
          = (\<forall>k \<in> {Suc j..<length segs}. join ''/'' (take k segs) \<in> E)"
    using Suc.hyps(1)[OF n] j by simp
  have s: "{j..<length segs} = insert j {Suc j..<length segs}"
    using j by auto
  show ?case
    unfolding d s using ih t by simp
qed

lemma isModVisible_iff: "isModVisible E p = (set (strict_ancestors p) \<subseteq> E)"
proof -
  let ?segs = "split_char CHR ''/'' p"
  show ?thesis
  proof (cases "length ?segs \<le> 1")
    case True
    then show ?thesis by (simp add: isModVisible_def strict_ancestors_def Let_def)
  next
    case False
    then have l: "1 \<le> length ?segs" by simp
    have "isModVisible_loop E (join ''/'' (take (Suc 0) ?segs)) (drop (Suc 0) ?segs)
            = (\<forall>k \<in> {Suc 0..<length ?segs}. join ''/'' (take k ?segs) \<in> E)"
      using isModVisible_loop_iff[of "Suc 0" ?segs E] l by simp
    then show ?thesis
      using False
      by (auto simp: isModVisible_def strict_ancestors_def Let_def take1_hd drop_Suc)
  qed
qed

lemma split_char_length [simp]: "Suc 0 \<le> length (split_char sep s)"
  by (cases "split_char sep s") simp_all

lemma length_chain: "length (chain m) = length (split_char CHR ''/'' m)"
  by (simp add: chain_def Let_def del: upt_Suc)

lemma chain_nth:
  "k < length (chain m) \<Longrightarrow> chain m ! k = join ''/'' (take (Suc k) (split_char CHR ''/'' m))"
  by (simp add: chain_def Let_def del: upt_Suc)

lemma strict_ancestors_chain_elem:
  assumes "k < length (chain m)"
  shows "strict_ancestors (chain m ! k) = take k (chain m)"
proof -
  let ?segs = "split_char CHR ''/'' m"
  have k: "k < length ?segs" using assms by (simp add: length_chain)
  have ns: "\<forall>x \<in> set (take (Suc k) ?segs). CHR ''/'' \<notin> set x"
    by (meson in_set_takeD split_char_no_sep)
  have ne: "take (Suc k) ?segs \<noteq> []" using k by (cases ?segs) auto
  have sp: "split_char CHR ''/'' (chain m ! k) = take (Suc k) ?segs"
    using split_char_join[OF ne ns] assms by (simp add: chain_nth)
  have len: "length (take (Suc k) ?segs) = Suc k" using k by simp
  have "strict_ancestors (chain m ! k)
          = map (\<lambda>j. join ''/'' (take j (take (Suc k) ?segs))) [1..<Suc k]"
    unfolding strict_ancestors_def sp Let_def len by (rule refl)
  also have "\<dots> = map (\<lambda>j. join ''/'' (take j ?segs)) [1..<Suc k]"
    by (rule map_cong) (auto simp: min_def)
  also have "\<dots> = take k (chain m)"
    using k by (simp add: chain_def Let_def take_map)
  finally show ?thesis .
qed

lemma chain_last: "last (chain m) = m"
proof -
  let ?segs = "split_char CHR ''/'' m"
  obtain n where n: "length ?segs = Suc n" by (cases ?segs) auto
  then have "last (chain m) = join ''/'' (take (length ?segs) ?segs)"
    by (simp add: chain_def Let_def)
  then show ?thesis by (simp add: join_split_char)
qed

lemma chain_nonempty: "chain m \<noteq> []"
  using length_chain[of m] by (cases "chain m") simp_all

lemma chain_elem_prefix: "k < length (chain m) \<Longrightarrow> prefix (chain m ! k) m"
  using prefix_join_take[of "''/''" "Suc k" "split_char CHR ''/'' m"]
  by (simp add: chain_nth join_split_char)

lemma strict_ancestors_self: "strict_ancestors m = butlast (chain m)"
  by (simp add: strict_ancestors_def chain_def Let_def butlast_conv_take take_map)

lemma resolveVisible_visible:
  "(if has_dcolon (resolveVisible E f)
    then isFnVisible E (resolveVisible E f)
         \<and> hd (split_dcolon (resolveVisible E f)) \<in> E
         \<and> set (strict_ancestors (hd (split_dcolon (resolveVisible E f)))) \<subseteq> E
    else isModVisible E (resolveVisible E f)
         \<and> set (strict_ancestors (resolveVisible E f)) \<subseteq> E)"
proof -
  let ?m = "hd (split_dcolon f)"
  have nm: "\<not> has_dcolon ?m" by (rule has_dcolon_hd_split)
  show ?thesis
  proof (cases "find (\<lambda>p. p \<notin> E) (chain ?m)")
    case None
    then have r: "resolveVisible E f = f" by (simp add: resolveVisible_find)
    from None have all: "set (chain ?m) \<subseteq> E" by (auto simp: find_None_iff)
    have "set (strict_ancestors ?m) \<subseteq> set (chain ?m)"
      by (simp add: strict_ancestors_self) (meson in_set_butlastD subsetI)
    with all have anc: "set (strict_ancestors ?m) \<subseteq> E" by blast
    have "last (chain ?m) \<in> set (chain ?m)" by (rule last_in_set[OF chain_nonempty])
    with all have mE: "?m \<in> E" by (auto simp: chain_last)
    show ?thesis
    proof (cases "has_dcolon f")
      case True
      with r anc mE show ?thesis by (simp add: isFnVisible_def isModVisible_iff Let_def)
    next
      case False
      then have "?m = f" by (simp add: split_dcolon_no_dcolon)
      with False r anc show ?thesis by (simp add: isModVisible_iff)
    qed
  next
    case (Some p)
    then have r: "resolveVisible E f = p" by (simp add: resolveVisible_find)
    from Some obtain k where k: "k < length (chain ?m)" "p = chain ?m ! k"
      and before: "\<forall>j<k. chain ?m ! j \<in> E"
      by (auto simp: find_Some_iff)
    have "prefix p ?m" using k by (simp add: chain_elem_prefix)
    with nm have np: "\<not> has_dcolon p" using has_dcolon_prefix by blast
    have "set (strict_ancestors p) \<subseteq> E"
      using before k by (auto simp: strict_ancestors_chain_elem in_set_conv_nth)
    with np r show ?thesis by (simp add: isModVisible_iff)
  qed
qed


subsection \<open>Module edges: auxiliary facts\<close>

lemma after_first_dcolon_append:
  "CHR '':'' \<notin> set r \<Longrightarrow> after_first_dcolon (r @ ''::'' @ x) = Some x"
proof (induction r)
  case Nil
  show ?case by simp
next
  case (Cons c r)
  then have ih: "after_first_dcolon (r @ ''::'' @ x) = Some x" and c: "c \<noteq> CHR '':''" by auto
  obtain d ds where d: "r @ ''::'' @ x = d # ds" by (cases r) auto
  with ih c show ?case by simp
qed

lemma rsplit_dcolon_hd_append:
  "CHR '':'' \<notin> set fn \<Longrightarrow> rsplit_dcolon_hd (m @ ''::'' @ fn) = m"
  using after_first_dcolon_append[of "rev fn" "rev m"]
  by (simp add: rsplit_dcolon_hd_def)

lemma mod_edge_add_set:
  "set (mod_edge_add e acc)
     = set acc \<union> (if rsplit_dcolon_hd (fst e) \<noteq> rsplit_dcolon_hd (snd e)
                   then {(rsplit_dcolon_hd (fst e), rsplit_dcolon_hd (snd e))} else {})"
  by (auto simp: mod_edge_add_def Let_def)

lemma mod_edge_add_distinct: "distinct acc \<Longrightarrow> distinct (mod_edge_add e acc)"
  by (simp add: mod_edge_add_def Let_def)

lemma fold_mod_edge_add:
  "set (fold mod_edge_add fes acc)
     = set acc \<union> {(rsplit_dcolon_hd s, rsplit_dcolon_hd t) | s t.
                    (s, t) \<in> set fes \<and> rsplit_dcolon_hd s \<noteq> rsplit_dcolon_hd t}"
  "distinct acc \<Longrightarrow> distinct (fold mod_edge_add fes acc)"
proof (induction fes arbitrary: acc)
  case Nil
  { case 1 show ?case by simp }
  { case 2 then show ?case by simp }
next
  case (Cons e fes)
  { case 1
    show ?case
      unfolding fold_simps Cons.IH(1) mod_edge_add_set
      by (cases e) auto }
  { case 2
    then show ?case
      by (simp add: Cons.IH(2) mod_edge_add_distinct) }
qed

subsection \<open>Dependency sorter: auxiliary facts\<close>

lemma map_of_dict_of_keys_gen:
  "map_of (fold (\<lambda>k d. AList.update k v d) ks d0) k
     = (if k \<in> set ks then Some v else map_of d0 k)"
  by (induction ks arbitrary: d0) (auto simp: update_conv')

lemma map_of_dict_of_keys:
  "map_of (dict_of_keys ks v) k = (if k \<in> set ks then Some v else None)"
  by (simp add: dict_of_keys_def map_of_dict_of_keys_gen)

lemma name_to_path_fold_ran:
  "fold (\<lambda>cp m. m(last_segment cp \<mapsto> cp)) cs m0 n = Some p \<Longrightarrow> p \<in> set cs \<or> m0 n = Some p"
proof (induction cs arbitrary: m0)
  case Nil
  then show ?case by simp
next
  case (Cons c cs)
  from Cons.prems have "fold (\<lambda>cp m. m(last_segment cp \<mapsto> cp)) cs (m0(last_segment c \<mapsto> c)) n = Some p"
    by (simp only: fold_simps)
  from Cons.IH[OF this] show ?case by (auto split: if_splits)
qed

lemma name_to_path_of_ran: "name_to_path_of cs n = Some p \<Longrightarrow> p \<in> set cs"
  using name_to_path_fold_ran[of cs Map.empty n p] by (simp add: name_to_path_of_def)

lemma resolved_deps_subset: "set (resolved_deps (name_to_path_of cs) dns) \<subseteq> set cs"
proof
  fix p assume "p \<in> set (resolved_deps (name_to_path_of cs) dns)"
  then obtain dn where "name_to_path_of cs dn = Some p"
    by (auto simp: resolved_deps_def split: option.splits if_splits)
  then show "p \<in> set cs" by (rule name_to_path_of_ran)
qed

lemma dep_targets_subset: "set (dep_targets cs child_deps cp) \<subseteq> set cs"
  by (simp add: dep_targets_def resolved_deps_subset)

lemma resolved_deps_Cons:
  "resolved_deps n2p (dn # dns)
     = (case n2p dn of None \<Rightarrow> [] | Some p \<Rightarrow> if p = [] then [] else [p]) @ resolved_deps n2p dns"
  by (simp add: resolved_deps_def)

lemma build_inner_spec:
  assumes "map_of adj cp = Some l"
    and "\<forall>p \<in> set (resolved_deps n2p dns). map_of in_deg p \<noteq> None"
  shows "\<exists>adj' in_deg'. build_inner n2p cp dns (adj, in_deg) = Inr (adj', in_deg')
           \<and> map_of adj' = (map_of adj)(cp \<mapsto> l @ resolved_deps n2p dns)
           \<and> (\<forall>d. map_of in_deg' d
                    = map_option (\<lambda>v. v + int (count_list (resolved_deps n2p dns) d)) (map_of in_deg d))"
  using assms
proof (induction dns arbitrary: adj in_deg l)
  case Nil
  then show ?case by (auto simp: resolved_deps_def option.map_ident map_upd_triv)
next
  case (Cons dn dns)
  show ?case
  proof (cases "n2p dn")
    case None
    with Cons.prems have "\<forall>p \<in> set (resolved_deps n2p dns). map_of in_deg p \<noteq> None"
      by (simp add: resolved_deps_Cons)
    from Cons.IH[OF Cons.prems(1) this] None show ?thesis
      by (simp add: resolved_deps_Cons)
  next
    case (Some p)
    show ?thesis
    proof (cases "p = []")
      case True
      with Some Cons.prems have "\<forall>p \<in> set (resolved_deps n2p dns). map_of in_deg p \<noteq> None"
        by (simp add: resolved_deps_Cons)
      from Cons.IH[OF Cons.prems(1) this] Some True show ?thesis
        by (simp add: resolved_deps_Cons)
    next
      case False
      with Some Cons.prems obtain v where v: "map_of in_deg p = Some v"
        by (auto simp: resolved_deps_Cons)
      let ?adj1 = "AList.update cp (l @ [p]) adj"
      let ?in1 = "AList.update p (v + 1) in_deg"
      have a1: "map_of ?adj1 cp = Some (l @ [p])" by (simp add: update_conv')
      have i1: "\<forall>q \<in> set (resolved_deps n2p dns). map_of ?in1 q \<noteq> None"
        using Cons.prems(2) Some False by (auto simp: resolved_deps_Cons update_conv')
      from Cons.IH[OF a1 i1] obtain adj' in_deg' where
        r: "build_inner n2p cp dns (?adj1, ?in1) = Inr (adj', in_deg')"
        and a: "map_of adj' = (map_of ?adj1)(cp \<mapsto> (l @ [p]) @ resolved_deps n2p dns)"
        and i: "\<forall>d. map_of in_deg' d
                    = map_option (\<lambda>v. v + int (count_list (resolved_deps n2p dns) d)) (map_of ?in1 d)"
        by blast
      have b: "build_inner n2p cp (dn # dns) (adj, in_deg) = Inr (adj', in_deg')"
        using Some False Cons.prems(1) v r by simp
      have a': "map_of adj' = (map_of adj)(cp \<mapsto> l @ resolved_deps n2p (dn # dns))"
        using a Some False by (simp add: resolved_deps_Cons update_conv')
      have i': "\<forall>d. map_of in_deg' d
                    = map_option (\<lambda>v. v + int (count_list (resolved_deps n2p (dn # dns)) d)) (map_of in_deg d)"
        using i Some False v by (auto simp: resolved_deps_Cons update_conv')
      from b a' i' show ?thesis by blast
    qed
  qed
qed


lemma build_graph_spec:
  fixes n2p child_deps
  defines "T \<equiv> \<lambda>cp. resolved_deps n2p (deps_get child_deps (last_segment cp))"
  assumes "\<forall>cp \<in> set cps. map_of adj cp \<noteq> None"
    and "\<forall>cp \<in> set cps. \<forall>p \<in> set (T cp). map_of in_deg p \<noteq> None"
  shows "\<exists>adj' in_deg'. build_graph n2p child_deps cps (adj, in_deg) = Inr (adj', in_deg')
           \<and> (\<forall>k. map_of adj' k
                    = map_option (\<lambda>l. l @ concat (map T (filter (\<lambda>c. c = k) cps))) (map_of adj k))
           \<and> (\<forall>d. map_of in_deg' d
                    = map_option (\<lambda>v. v + int (count_list (concat (map T cps)) d)) (map_of in_deg d))"
  using assms(2,3)
proof (induction cps arbitrary: adj in_deg)
  case Nil
  then show ?case by (simp add: option.map_ident)
next
  case (Cons c cps)
  from Cons.prems(1) obtain l where l: "map_of adj c = Some l" by auto
  have p: "\<forall>p \<in> set (resolved_deps n2p (deps_get child_deps (last_segment c))). map_of in_deg p \<noteq> None"
    using Cons.prems(2) by (simp add: T_def)
  from build_inner_spec[OF l p] obtain adj1 in1 where
    b1: "build_inner n2p c (deps_get child_deps (last_segment c)) (adj, in_deg) = Inr (adj1, in1)"
    and a1: "map_of adj1 = (map_of adj)(c \<mapsto> l @ T c)"
    and i1: "\<forall>d. map_of in1 d = map_option (\<lambda>v. v + int (count_list (T c) d)) (map_of in_deg d)"
    unfolding T_def by blast
  have pa: "\<forall>cp \<in> set cps. map_of adj1 cp \<noteq> None"
    using Cons.prems(1) a1 by simp
  have pi: "\<forall>cp \<in> set cps. \<forall>p \<in> set (T cp). map_of in1 p \<noteq> None"
    using Cons.prems(2) i1 by simp
  from Cons.IH[OF pa pi] obtain adj' in_deg' where
    b: "build_graph n2p child_deps cps (adj1, in1) = Inr (adj', in_deg')"
    and a: "\<forall>k. map_of adj' k
                    = map_option (\<lambda>l. l @ concat (map T (filter (\<lambda>c. c = k) cps))) (map_of adj1 k)"
    and i: "\<forall>d. map_of in_deg' d
                    = map_option (\<lambda>v. v + int (count_list (concat (map T cps)) d)) (map_of in1 d)"
    by blast
  have b': "build_graph n2p child_deps (c # cps) (adj, in_deg) = Inr (adj', in_deg')"
    using b1 b by simp
  have a': "\<forall>k. map_of adj' k
                    = map_option (\<lambda>l. l @ concat (map T (filter (\<lambda>c. c = k) (c # cps)))) (map_of adj k)"
    using a a1 l by (auto simp: option.map_comp comp_def)
  have i': "\<forall>d. map_of in_deg' d
                    = map_option (\<lambda>v. v + int (count_list (concat (map T (c # cps))) d)) (map_of in_deg d)"
    using i i1 by (auto simp: option.map_comp comp_def algebra_simps)
  from b' a' i' show ?case by blast
qed

lemma build_graph_initial:
  fixes cs child_deps
  defines "T \<equiv> dep_targets cs child_deps"
  shows "\<exists>adj in_deg.
           build_graph (name_to_path_of cs) child_deps cs
             (dict_of_keys cs ([] :: string list), dict_of_keys cs (0 :: int)) = Inr (adj, in_deg)
           \<and> (\<forall>k. map_of adj k
                    = (if k \<in> set cs then Some (concat (map T (filter (\<lambda>c. c = k) cs))) else None))
           \<and> (\<forall>d. map_of in_deg d
                    = (if d \<in> set cs then Some (int (count_list (concat (map T cs)) d)) else None))"
proof -
  have T: "T = (\<lambda>cp. resolved_deps (name_to_path_of cs) (deps_get child_deps (last_segment cp)))"
    by (simp add: T_def dep_targets_def fun_eq_iff)
  have 1: "\<forall>cp \<in> set cs. map_of (dict_of_keys cs ([] :: string list)) cp \<noteq> None"
    by (simp add: map_of_dict_of_keys)
  have 2: "\<forall>cp \<in> set cs. \<forall>p \<in> set (resolved_deps (name_to_path_of cs) (deps_get child_deps (last_segment cp))).
             map_of (dict_of_keys cs (0 :: int)) p \<noteq> None"
    using resolved_deps_subset[of cs] by (auto simp: map_of_dict_of_keys)
  from build_graph_spec[OF 1 2] obtain adj in_deg where
    b: "build_graph (name_to_path_of cs) child_deps cs
             (dict_of_keys cs ([] :: string list), dict_of_keys cs (0 :: int)) = Inr (adj, in_deg)"
    and a: "\<forall>k. map_of adj k = map_option (\<lambda>l. l @ concat (map T (filter (\<lambda>c. c = k) cs)))
                 (map_of (dict_of_keys cs ([] :: string list)) k)"
    and i: "\<forall>d. map_of in_deg d = map_option (\<lambda>v. v + int (count_list (concat (map T cs)) d))
                 (map_of (dict_of_keys cs (0 :: int)) d)"
    unfolding T by blast
  from a have a': "\<forall>k. map_of adj k
                    = (if k \<in> set cs then Some (concat (map T (filter (\<lambda>c. c = k) cs))) else None)"
    by (simp add: map_of_dict_of_keys)
  from i have i': "\<forall>d. map_of in_deg d
                    = (if d \<in> set cs then Some (int (count_list (concat (map T cs)) d)) else None)"
    by (simp add: map_of_dict_of_keys)
  from b a' i' show ?thesis by blast
qed

lemma relax_ok:
  "\<forall>d \<in> set deps. map_of in_deg d \<noteq> None \<Longrightarrow>
   \<exists>in_deg' queue'. relax deps (in_deg, queue) = Inr (in_deg', queue')
      \<and> dom (map_of in_deg') = dom (map_of in_deg) \<and> set queue' \<subseteq> set queue \<union> set deps"
proof (induction deps arbitrary: in_deg queue)
  case Nil
  then show ?case by simp
next
  case (Cons d deps)
  from Cons.prems obtain v where v: "map_of in_deg d = Some v" by auto
  let ?in1 = "AList.update d (v - 1) in_deg"
  let ?q1 = "if v - 1 = 0 then queue @ [d] else queue"
  have dom1: "dom (map_of ?in1) = dom (map_of in_deg)"
    using v by (auto simp: update_conv')
  then have "\<forall>e \<in> set deps. map_of ?in1 e \<noteq> None"
    using Cons.prems by (auto simp: update_conv')
  from Cons.IH[OF this, of ?q1] obtain in_deg' queue' where
    r: "relax deps (?in1, ?q1) = Inr (in_deg', queue')"
    and d: "dom (map_of in_deg') = dom (map_of ?in1)"
    and q: "set queue' \<subseteq> set ?q1 \<union> set deps"
    by blast
  have "relax (d # deps) (in_deg, queue) = Inr (in_deg', queue')"
    using v r by simp
  moreover have "set queue' \<subseteq> set queue \<union> set (d # deps)"
    using q by (auto split: if_splits)
  ultimately show ?case using d dom1 by auto
qed

lemma kahn_ok:
  assumes "set queue \<subseteq> dom (map_of adj)"
    and "\<forall>n l. map_of adj n = Some l \<longrightarrow> set l \<subseteq> dom (map_of in_deg) \<and> set l \<subseteq> dom (map_of adj)"
  shows "\<exists>r. kahn adj in_deg queue result = Inr r"
  using assms
proof (induction adj in_deg queue result rule: kahn.induct)
  case (1 adj in_deg result)
  show ?case by simp
next
  case (2 adj in_deg node queue result)
  from "2.prems"(1) obtain deps where deps: "map_of adj node = Some deps" by auto
  with "2.prems"(2) have sub: "set deps \<subseteq> dom (map_of in_deg)" "set deps \<subseteq> dom (map_of adj)"
    by blast+
  then have "\<forall>d \<in> set deps. map_of in_deg d \<noteq> None" by auto
  from relax_ok[OF this, of queue] obtain in_deg' queue' where
    r: "relax deps (in_deg, queue) = Inr (in_deg', queue')"
    and d: "dom (map_of in_deg') = dom (map_of in_deg)"
    and q: "set queue' \<subseteq> set queue \<union> set deps"
    by blast
  have 1: "set queue' \<subseteq> dom (map_of adj)"
    using q sub(2) "2.prems"(1) by auto
  have 2: "\<forall>n l. map_of adj n = Some l \<longrightarrow> set l \<subseteq> dom (map_of in_deg') \<and> set l \<subseteq> dom (map_of adj)"
    using "2.prems"(2) d by simp
  from "2.IH"[OF deps r refl 1 2] deps r show ?case by simp
qed

lemma sort_children_total: "\<exists>r. sort_children cs child_deps = Inr r"
proof -
  from build_graph_initial[of cs child_deps] obtain adj in_deg where
    b: "build_graph (name_to_path_of cs) child_deps cs
             (dict_of_keys cs ([] :: string list), dict_of_keys cs (0 :: int)) = Inr (adj, in_deg)"
    and a: "\<forall>k. map_of adj k
                    = (if k \<in> set cs then Some (concat (map (dep_targets cs child_deps) (filter (\<lambda>c. c = k) cs))) else None)"
    and i: "\<forall>d. map_of in_deg d
                    = (if d \<in> set cs then Some (int (count_list (concat (map (dep_targets cs child_deps) cs)) d)) else None)"
    by blast
  have da: "dom (map_of adj) = set cs" using a by (auto split: if_splits)
  have di: "dom (map_of in_deg) = set cs" using i by (auto split: if_splits)
  have 1: "set (filter (\<lambda>cp. map_of in_deg cp = Some 0) cs) \<subseteq> dom (map_of adj)"
    using da by auto
  have 2: "\<forall>n l. map_of adj n = Some l \<longrightarrow> set l \<subseteq> dom (map_of in_deg) \<and> set l \<subseteq> dom (map_of adj)"
  proof (intro allI impI)
    fix n l assume "map_of adj n = Some l"
    with a have "l = concat (map (dep_targets cs child_deps) (filter (\<lambda>c. c = n) cs))"
      by (auto split: if_splits)
    then have "set l \<subseteq> set cs" using dep_targets_subset[of cs child_deps] by auto
    then show "set l \<subseteq> dom (map_of in_deg) \<and> set l \<subseteq> dom (map_of adj)"
      using da di by simp
  qed
  from kahn_ok[OF 1 2, of "[]"] obtain r where
    "kahn adj in_deg (filter (\<lambda>cp. map_of in_deg cp = Some 0) cs) [] = Inr r" by blast
  with b show ?thesis by (simp add: sort_children_def Let_def)
qed



lemma relax_exact:
  assumes "\<forall>d \<in> set deps. \<exists>v. map_of in_deg d = Some v \<and> int (count_list deps d) \<le> v"
  shows "\<exists>in_deg' new. relax deps (in_deg, queue) = Inr (in_deg', queue @ new)
      \<and> (\<forall>d. map_of in_deg' d = map_option (\<lambda>v. v - int (count_list deps d)) (map_of in_deg d))
      \<and> distinct new
      \<and> set new = {d \<in> set deps. map_of in_deg d = Some (int (count_list deps d))}"
  using assms
proof (induction deps arbitrary: in_deg queue)
  case Nil
  show ?case by (simp add: option.map_ident)
next
  case (Cons d deps)
  from Cons.prems obtain v where v: "map_of in_deg d = Some v"
    and vge': "int (count_list (d # deps) d) \<le> v" by auto
  have vge: "int (count_list deps d) + 1 \<le> v" using vge' by simp
  let ?in1 = "AList.update d (v - 1) in_deg"
  let ?q1 = "if v - 1 = 0 then queue @ [d] else queue"
  have m1d: "map_of ?in1 d = Some (v - 1)" by (simp add: update_conv')
  have m1e: "\<And>e. e \<noteq> d \<Longrightarrow> map_of ?in1 e = map_of in_deg e" by (simp add: update_conv')
  have pre: "\<forall>e \<in> set deps. \<exists>w. map_of ?in1 e = Some w \<and> int (count_list deps e) \<le> w"
  proof
    fix e assume e: "e \<in> set deps"
    show "\<exists>w. map_of ?in1 e = Some w \<and> int (count_list deps e) \<le> w"
    proof (cases "e = d")
      case True
      with vge m1d show ?thesis by simp
    next
      case False
      from Cons.prems e obtain w where "map_of in_deg e = Some w" "int (count_list (d # deps) e) \<le> w"
        by auto
      with False m1e[OF False] show ?thesis by simp
    qed
  qed
  from Cons.IH[OF pre, of ?q1] obtain in_deg' new1 where
    r: "relax deps (?in1, ?q1) = Inr (in_deg', ?q1 @ new1)"
    and i: "\<forall>e. map_of in_deg' e = map_option (\<lambda>w. w - int (count_list deps e)) (map_of ?in1 e)"
    and dn: "distinct new1"
    and sn: "set new1 = {e \<in> set deps. map_of ?in1 e = Some (int (count_list deps e))}"
    by blast
  let ?new = "(if v - 1 = 0 then [d] else []) @ new1"
  have v1: "d \<notin> set deps" if "v - 1 = 0"
  proof
    assume "d \<in> set deps"
    then have "count_list deps d \<noteq> 0" by (simp add: count_list_0_iff)
    then have "0 < count_list deps d" by simp
    with vge that show False by simp
  qed
  have q: "?q1 @ new1 = queue @ ?new" by simp
  have 1: "relax (d # deps) (in_deg, queue) = Inr (in_deg', queue @ ?new)"
    unfolding q[symmetric] using v r by simp
  have 2: "\<forall>e. map_of in_deg' e = map_option (\<lambda>w. w - int (count_list (d # deps) e)) (map_of in_deg e)"
  proof
    fix e
    show "map_of in_deg' e = map_option (\<lambda>w. w - int (count_list (d # deps) e)) (map_of in_deg e)"
    proof (cases "e = d")
      case True
      with i m1d v show ?thesis by simp
    next
      case False
      with i m1e[OF False] show ?thesis by simp
    qed
  qed
  have 3: "distinct ?new"
  proof (cases "v - 1 = 0")
    case True
    then have "d \<notin> set deps" by (rule v1)
    with sn have "d \<notin> set new1" by simp
    with dn True show ?thesis by simp
  next
    case False
    with dn show ?thesis by simp
  qed
  have 4: "set ?new = {e \<in> set (d # deps). map_of in_deg e = Some (int (count_list (d # deps) e))}"
    (is "?L = ?R")
  proof (rule set_eqI)
    fix e
    show "e \<in> ?L \<longleftrightarrow> e \<in> ?R"
    proof (cases "e = d")
      case True
      show ?thesis
      proof (cases "d \<in> set deps")
        case True
        then have "v - 1 \<noteq> 0" using v1 by blast
        with True \<open>e = d\<close> sn m1d v show ?thesis by auto
      next
        case False
        then have "count_list deps d = 0" by (simp add: count_list_0_iff)
        moreover from False sn have "d \<notin> set new1" by simp
        ultimately show ?thesis using \<open>e = d\<close> v by auto
      qed
    next
      case False
      with sn m1e[OF False] show ?thesis by auto
    qed
  qed
  from 1 2 3 4 show ?case by blast
qed

lemma count_concat_filter_split:
  "distinct xs \<Longrightarrow> x \<in> set xs \<Longrightarrow> P x \<Longrightarrow>
   count_list (concat (map T (filter P xs))) d
     = count_list (T x) d + count_list (concat (map T (filter (\<lambda>n. P n \<and> n \<noteq> x) xs))) d"
proof (induction xs)
  case Nil
  then show ?case by simp
next
  case (Cons y xs)
  show ?case
  proof (cases "y = x")
    case True
    with Cons.prems have "x \<notin> set xs" by simp
    then have "filter (\<lambda>n. P n \<and> n \<noteq> x) xs = filter P xs"
      by (intro filter_cong) auto
    with True Cons.prems show ?thesis by simp
  next
    case False
    with Cons show ?thesis by simp
  qed
qed

lemma pending_step:
  assumes "distinct cs" "node \<in> set cs" "node \<notin> set result"
  shows "count_list (pending cs T result) d
           = count_list (T node) d + count_list (pending cs T (result @ [node])) d"
proof -
  have "filter (\<lambda>n. n \<notin> set (result @ [node])) cs = filter (\<lambda>n. n \<notin> set result \<and> n \<noteq> node) cs"
    by (intro filter_cong) auto
  with count_concat_filter_split[OF assms(1,2), of "\<lambda>n. n \<notin> set result" T d] assms(3)
  show ?thesis by (simp add: pending_def)
qed

lemma pending_zero_iff:
  "count_list (pending cs T result) d = 0 \<longleftrightarrow> (\<forall>n \<in> set cs. d \<in> set (T n) \<longrightarrow> n \<in> set result)"
  by (auto simp: pending_def count_list_0_iff)

lemma before_append: "before n d r \<Longrightarrow> before n d (r @ s)"
proof -
  assume "before n d r"
  then obtain r1 r2 where "r = r1 @ d # r2" "n \<in> set r1" by (auto simp: before_def)
  then have "r @ s = r1 @ d # (r2 @ s) \<and> n \<in> set r1" by simp
  then show ?thesis unfolding before_def by blast
qed

lemma before_snoc: "n \<in> set r \<Longrightarrow> before n d (r @ [d])"
  by (auto simp: before_def)

lemma kahn_inv_step:
  assumes dist: "distinct cs"
    and Tsub: "\<forall>n. set (T n) \<subseteq> set cs"
    and inv: "kahn_inv cs T in_deg (node # queue) result"
    and rel: "relax (T node) (in_deg, queue) = Inr (in_deg', queue')"
  shows "kahn_inv cs T in_deg' queue' (result @ [node])"
proof -
  from inv have d0: "distinct (result @ node # queue)" and s0: "set (result @ node # queue) \<subseteq> set cs"
    and D: "\<forall>d. map_of in_deg d
             = (if d \<in> set cs then Some (int (count_list (pending cs T result) d)) else None)"
    and Z: "\<forall>d \<in> set cs. count_list (pending cs T result) d = 0 \<longleftrightarrow> d \<in> set (result @ node # queue)"
    and O: "\<forall>d \<in> set result. \<forall>n \<in> set cs. d \<in> set (T n) \<longrightarrow> before n d result"
    by (simp_all add: kahn_inv_def)
  from d0 s0 have nin: "node \<in> set cs" and nnr: "node \<notin> set result" by auto
  note ps = pending_step[OF dist nin nnr, of T]
  have pre: "\<forall>d \<in> set (T node). \<exists>v. map_of in_deg d = Some v \<and> int (count_list (T node) d) \<le> v"
  proof
    fix d assume "d \<in> set (T node)"
    with Tsub have "d \<in> set cs" by auto
    with D ps[of d] show "\<exists>v. map_of in_deg d = Some v \<and> int (count_list (T node) d) \<le> v"
      by simp
  qed
  from relax_exact[OF pre, of queue] rel obtain new where
    q': "queue' = queue @ new"
    and D': "\<forall>d. map_of in_deg' d = map_option (\<lambda>v. v - int (count_list (T node) d)) (map_of in_deg d)"
    and dn: "distinct new"
    and sn: "set new = {d \<in> set (T node). map_of in_deg d = Some (int (count_list (T node) d))}"
    by auto
  have newcs: "set new \<subseteq> set cs" using sn Tsub by auto
  have new_iff: "d \<in> set new \<longleftrightarrow> d \<in> set (T node) \<and> count_list (pending cs T (result @ [node])) d = 0"
    for d
  proof -
    have "d \<in> set (T node) \<Longrightarrow> d \<in> set cs" using Tsub by auto
    then show ?thesis using sn D ps[of d] by auto
  qed
  have new_fresh: "d \<notin> set (result @ node # queue)" if "d \<in> set new" for d
  proof -
    from that new_iff have dT: "d \<in> set (T node)" by simp
    then have "count_list (T node) d \<noteq> 0" by (simp add: count_list_0_iff)
    with ps[of d] have "count_list (pending cs T result) d \<noteq> 0" by simp
    moreover have "d \<in> set cs" using dT Tsub by auto
    ultimately show ?thesis using Z by (simp del: set_append)
  qed
  have 1: "distinct ((result @ [node]) @ queue')"
    using d0 dn new_fresh unfolding q' by auto
  have 2: "set ((result @ [node]) @ queue') \<subseteq> set cs"
    using s0 newcs unfolding q' by auto
  have 3: "\<forall>d. map_of in_deg' d
             = (if d \<in> set cs then Some (int (count_list (pending cs T (result @ [node])) d)) else None)"
    using D D' ps by simp
  have 4: "\<forall>d \<in> set cs. count_list (pending cs T (result @ [node])) d = 0
             \<longleftrightarrow> d \<in> set ((result @ [node]) @ queue')"
  proof
    fix d assume dcs: "d \<in> set cs"
    show "count_list (pending cs T (result @ [node])) d = 0 \<longleftrightarrow> d \<in> set ((result @ [node]) @ queue')"
    proof
      assume z: "count_list (pending cs T (result @ [node])) d = 0"
      show "d \<in> set ((result @ [node]) @ queue')"
      proof (cases "d \<in> set (T node)")
        case True
        with z new_iff have "d \<in> set new" by simp
        then show ?thesis unfolding q' by simp
      next
        case False
        then have "count_list (T node) d = 0" by (simp add: count_list_0_iff)
        with z ps[of d] have "count_list (pending cs T result) d = 0" by simp
        with Z dcs have "d \<in> set (result @ node # queue)" by blast
        then show ?thesis unfolding q' by auto
      qed
    next
      assume "d \<in> set ((result @ [node]) @ queue')"
      then have "d \<in> set (result @ node # queue) \<or> d \<in> set new" unfolding q' by auto
      then show "count_list (pending cs T (result @ [node])) d = 0"
      proof
        assume "d \<in> set (result @ node # queue)"
        with Z dcs have "count_list (pending cs T result) d = 0" by blast
        with ps[of d] show ?thesis by simp
      next
        assume "d \<in> set new"
        with new_iff show ?thesis by simp
      qed
    qed
  qed
  have 5: "\<forall>d \<in> set (result @ [node]). \<forall>n \<in> set cs. d \<in> set (T n) \<longrightarrow> before n d (result @ [node])"
  proof (intro ballI impI)
    fix d n assume d: "d \<in> set (result @ [node])" and n: "n \<in> set cs" and dn: "d \<in> set (T n)"
    show "before n d (result @ [node])"
    proof (cases "d \<in> set result")
      case True
      with O n dn have "before n d result" by blast
      then show ?thesis by (rule before_append)
    next
      case False
      with d have e: "d = node" by simp
      from Z nin have "count_list (pending cs T result) node = 0" by simp
      with n dn e have "n \<in> set result" by (simp add: pending_zero_iff)
      then show ?thesis unfolding e by (rule before_snoc)
    qed
  qed
  from 1 2 3 4 5 show ?thesis unfolding kahn_inv_def by blast
qed


lemma kahn_inv_run:
  assumes dist: "distinct cs"
    and Tsub: "\<forall>n. set (T n) \<subseteq> set cs"
    and inv: "kahn_inv cs T in_deg queue result"
    and adjT: "\<forall>k \<in> set cs. map_of adj k = Some (T k)"
  shows "\<exists>r in_deg'. kahn adj in_deg queue result = Inr r \<and> kahn_inv cs T in_deg' [] r"
  using inv adjT
proof (induction adj in_deg queue result rule: kahn.induct)
  case (1 adj in_deg result)
  then show ?case by auto
next
  case (2 adj in_deg node queue result)
  from "2.prems"(1) have nin: "node \<in> set cs" by (simp add: kahn_inv_def)
  with "2.prems"(2) have deps: "map_of adj node = Some (T node)" by simp
  have "\<forall>d \<in> set (T node). map_of in_deg d \<noteq> None"
    using "2.prems"(1) Tsub by (auto simp: kahn_inv_def)
  from relax_ok[OF this, of queue] obtain in_deg' queue' where
    r: "relax (T node) (in_deg, queue) = Inr (in_deg', queue')" by blast
  have "kahn_inv cs T in_deg' queue' (result @ [node])"
    by (rule kahn_inv_step[OF dist Tsub "2.prems"(1) r])
  from "2.IH"[OF deps r refl this "2.prems"(2)] deps r show ?case by simp
qed

lemma filter_eq_distinct: "distinct cs \<Longrightarrow> k \<in> set cs \<Longrightarrow> filter (\<lambda>c. c = k) cs = [k]"
proof (induction cs)
  case Nil
  then show ?case by simp
next
  case (Cons c cs)
  show ?case
  proof (cases "c = k")
    case True
    with Cons.prems have "k \<notin> set cs" by simp
    then have "filter (\<lambda>c. c = k) cs = []" by (auto simp: filter_empty_conv)
    with True show ?thesis by simp
  next
    case False
    with Cons show ?thesis by simp
  qed
qed

lemma append_missing_distinct:
  "distinct cs \<Longrightarrow> append_missing cs r = r @ filter (\<lambda>c. c \<notin> set r) cs"
  unfolding append_missing_def
proof (induction cs arbitrary: r)
  case Nil
  show ?case by simp
next
  case (Cons c cs)
  then have d: "distinct cs" and c: "c \<notin> set cs" by simp_all
  show ?case
  proof (cases "c \<in> set r")
    case True
    with Cons.IH[OF d, of r] show ?thesis by simp
  next
    case False
    have "filter (\<lambda>x. x \<notin> set (r @ [c])) cs = filter (\<lambda>x. x \<notin> set r) cs"
      using c by (intro filter_cong) auto
    with False Cons.IH[OF d, of "r @ [c]"] show ?thesis by simp
  qed
qed

lemma sort_children_distinct:
  fixes cs child_deps
  defines "T \<equiv> dep_targets cs child_deps"
  assumes dist: "distinct cs"
  shows "\<exists>clean. sort_children cs child_deps = Inr (clean @ filter (\<lambda>c. c \<notin> set clean) cs)
           \<and> distinct clean \<and> set clean \<subseteq> set cs
           \<and> (\<forall>d \<in> set cs. d \<in> set clean \<longleftrightarrow> (\<forall>n \<in> set cs. d \<in> set (T n) \<longrightarrow> n \<in> set clean))
           \<and> (\<forall>d \<in> set clean. \<forall>n \<in> set cs. d \<in> set (T n) \<longrightarrow> before n d clean)"
proof -
  from build_graph_initial[of cs child_deps] obtain adj in_deg where
    b: "build_graph (name_to_path_of cs) child_deps cs
             (dict_of_keys cs ([] :: string list), dict_of_keys cs (0 :: int)) = Inr (adj, in_deg)"
    and a: "\<forall>k. map_of adj k
                    = (if k \<in> set cs then Some (concat (map T (filter (\<lambda>c. c = k) cs))) else None)"
    and i: "\<forall>d. map_of in_deg d
                    = (if d \<in> set cs then Some (int (count_list (concat (map T cs)) d)) else None)"
    unfolding T_def by blast
  let ?q = "filter (\<lambda>cp. map_of in_deg cp = Some 0) cs"
  have Tsub: "\<forall>n. set (T n) \<subseteq> set cs" by (simp add: T_def dep_targets_subset)
  have adjT: "\<forall>k \<in> set cs. map_of adj k = Some (T k)"
    using a by (simp add: filter_eq_distinct[OF dist])
  have p0: "pending cs T [] = concat (map T cs)" by (simp add: pending_def)
  have inv0: "kahn_inv cs T in_deg ?q []"
    unfolding kahn_inv_def p0 using dist i by auto
  from kahn_inv_run[OF dist Tsub inv0 adjT] obtain clean in_deg' where
    k: "kahn adj in_deg ?q [] = Inr clean" and inv: "kahn_inv cs T in_deg' [] clean"
    by blast
  have s: "sort_children cs child_deps = Inr (clean @ filter (\<lambda>c. c \<notin> set clean) cs)"
    using b k by (simp add: sort_children_def Let_def append_missing_distinct[OF dist])
  from inv have 1: "distinct clean" "set clean \<subseteq> set cs"
    and Z: "\<forall>d \<in> set cs. count_list (pending cs T clean) d = 0 \<longleftrightarrow> d \<in> set clean"
    and O: "\<forall>d \<in> set clean. \<forall>n \<in> set cs. d \<in> set (T n) \<longrightarrow> before n d clean"
    by (simp_all add: kahn_inv_def)
  from Z have Z': "\<forall>d \<in> set cs. d \<in> set clean \<longleftrightarrow> (\<forall>n \<in> set cs. d \<in> set (T n) \<longrightarrow> n \<in> set clean)"
    by (simp add: pending_zero_iff)
  from s 1 Z' O show ?thesis by blast
qed

lemma mset_clean_rest:
  assumes "distinct cs" "distinct clean" "set clean \<subseteq> set cs"
  shows "mset (clean @ filter (\<lambda>c. c \<notin> set clean) cs) = mset cs"
proof -
  have "distinct (filter (\<lambda>c. c \<in> set clean) cs)" using assms(1) by simp
  moreover have "set (filter (\<lambda>c. c \<in> set clean) cs) = set clean" using assms(3) by auto
  ultimately have "mset clean = mset (filter (\<lambda>c. c \<in> set clean) cs)"
    using assms(2) set_eq_iff_mset_eq_distinct by blast
  then show ?thesis by simp
qed




subsection \<open>Collapsing\<close>



subsection \<open>Connection points\<close>

text \<open>
  Claim C8.  For boxes of non-negative width and height the two gaps the code compares are
  the distances between the boxes' extents on each axis, 0 when the extents overlap.  When
  the horizontal gap is at least the vertical gap, both ends are at the vertical centre of
  their box, the source end on the left or right side of the source box and the target end
  facing it at the side of the target box (kept \<open>ARROW_W\<close> away from the side, the room of
  the arrow head).  Otherwise both ends have the same x-coordinate, the midpoint of the
  horizontal overlap of the boxes, or the midpoint of the two centres when there is no
  overlap, the source end on the top or bottom side of the source box and the target end
  facing the top or bottom side of the target box.
\<close>

theorem connectionPoints_sides:
  assumes "0 \<le> bw s" "0 \<le> bh s" "0 \<le> bw t" "0 \<le> bh t"
  defines "c \<equiv> connectionPoints s t"
  defines "sCx \<equiv> bx s + bw s / 2" and "sCy \<equiv> by' s + bh s / 2"
  defines "tCx \<equiv> bx t + bw t / 2" and "tCy \<equiv> by' t + bh t / 2"
  defines "oL \<equiv> max (bx s) (bx t)" and "oR \<equiv> min (bx s + bw s) (bx t + bw t)"
  shows "(spec_hGap s t \<ge> spec_vGap s t \<longrightarrow>
            sy c = sCy \<and> ty c = tCy
            \<and> (if tCx \<ge> sCx then sx c = bx s + bw s \<and> tx c = bx t - ARROW_W
               else sx c = bx s \<and> tx c = bx t + bw t + ARROW_W))
       \<and> (spec_hGap s t < spec_vGap s t \<longrightarrow>
            sx c = tx c
            \<and> sx c = (if oL < oR then (oL + oR) / 2 else (sCx + tCx) / 2)
            \<and> (if tCy \<ge> sCy then sy c = by' s + bh s \<and> ty c = by' t - ARROW_W
               else sy c = by' s \<and> ty c = by' t + bh t + ARROW_W))"
proof -
  have h: "max (max (bx t - (bx s + bw s)) (bx s - (bx t + bw t))) 0 = spec_hGap s t"
    using assms(1,3) by (auto simp: spec_hGap_def spec_gap_def max_def)
  have v: "max (max (by' t - (by' s + bh s)) (by' s - (by' t + bh t))) 0 = spec_vGap s t"
    using assms(2,4) by (auto simp: spec_vGap_def spec_gap_def max_def)
  have c: "c = (if spec_hGap s t \<ge> spec_vGap s t then
                  (if tCx \<ge> sCx then
                     \<lparr>sx = bx s + bw s, sy = sCy, tx = bx t - ARROW_W, ty = tCy\<rparr>
                   else \<lparr>sx = bx s, sy = sCy, tx = bx t + bw t + ARROW_W, ty = tCy\<rparr>)
                else
                  (let sharedX = (if oL < oR then (oL + oR) / 2 else (sCx + tCx) / 2)
                   in if tCy \<ge> sCy then
                        \<lparr>sx = sharedX, sy = by' s + bh s, tx = sharedX, ty = by' t - ARROW_W\<rparr>
                      else
                        \<lparr>sx = sharedX, sy = by' s, tx = sharedX, ty = by' t + bh t + ARROW_W\<rparr>))"
    unfolding c_def connectionPoints_def h v Let_def sCx_def sCy_def tCx_def tCy_def oL_def oR_def
    by (rule refl)
  show ?thesis
    by (simp add: c Let_def)
qed

theorem connectionPoints_sides_witness:
  "connectionPoints \<lparr>bx = 0, by' = 0, bw = 10, bh = 10\<rparr> \<lparr>bx = 100, by' = 20, bw = 10, bh = 10\<rparr>
     = \<lparr>sx = 10, sy = 5, tx = 90, ty = 25\<rparr>
   \<and> connectionPoints \<lparr>bx = 0, by' = 0, bw = 10, bh = 10\<rparr> \<lparr>bx = 4, by' = 50, bw = 10, bh = 10\<rparr>
     = \<lparr>sx = 7, sy = 10, tx = 7, ty = 40\<rparr>"
proof -
  let ?s = "\<lparr>bx = 0, by' = 0, bw = 10, bh = 10\<rparr> :: box"
  let ?t = "\<lparr>bx = 100, by' = 20, bw = 10, bh = 10\<rparr> :: box"
  let ?u = "\<lparr>bx = 4, by' = 50, bw = 10, bh = 10\<rparr> :: box"
  have 1: "connectionPoints ?s ?t = \<lparr>sx = 10, sy = 5, tx = 90, ty = 25\<rparr>"
    using connectionPoints_sides [of ?s ?t]
    by (cases "connectionPoints ?s ?t") (simp add: spec_hGap_def spec_vGap_def spec_gap_def ARROW_W_def)
  have 2: "connectionPoints ?s ?u = \<lparr>sx = 7, sy = 10, tx = 7, ty = 40\<rparr>"
    using connectionPoints_sides [of ?s ?u]
    by (cases "connectionPoints ?s ?u") (simp add: spec_hGap_def spec_vGap_def spec_gap_def ARROW_W_def)
  from 1 2 show ?thesis by simp
qed


subsection \<open>Endpoint resolution\<close>

text \<open>
  Claim C4.  The owning module of an endpoint is the text before its first \<open>::\<close>.
  \<open>resolveVisible\<close> returns the first module on the chain from the root to the owning
  module that is not in the Expanded-Set, and the function identity itself when the whole
  chain, the owning module included, is in the set.  Every entry of the edge map that
  \<open>updateArrows\<close> draws has two different resolved endpoints and comes from a function
  edge; a function edge whose resolved endpoints are equal adds nothing to the map.
\<close>

theorem resolveVisible_first_collapsed:
  "resolveVisible E fnId
     = (case find (\<lambda>p. p \<notin> E) (chain (hd (split_dcolon fnId))) of Some p \<Rightarrow> p | None \<Rightarrow> fnId)
   \<and> (CHR '':'' \<notin> set m \<longrightarrow>
        resolveVisible E (m @ ''::'' @ fn)
          = (case find (\<lambda>p. p \<notin> E) (chain m) of Some p \<Rightarrow> p | None \<Rightarrow> m @ ''::'' @ fn))
   \<and> (\<forall>(key, src, tgt) \<in> set (updateArrows_edgeMap E fes).
          src \<noteq> tgt \<and> (\<exists>(s, t) \<in> set fes. src = resolveVisible E s \<and> tgt = resolveVisible E t))
   \<and> (resolveVisible E s = resolveVisible E t \<longrightarrow> edgeMap_step E (s, t) em = em)"
proof -
  have "\<forall>(key, src, tgt) \<in> set (fold (edgeMap_step E) fes []).
          src \<noteq> tgt \<and> (\<exists>(s, t) \<in> set fes. src = resolveVisible E s \<and> tgt = resolveVisible E t)"
    by (rule fold_edgeMap_step_inv) simp_all
  then show ?thesis
    using resolveVisible_find[of E fnId] resolveVisible_find[of E "m @ ''::'' @ fn"]
      hd_split_dcolon_append[of m fn] edgeMap_internal_dropped[of E s t em]
    by (simp add: updateArrows_edgeMap_def)
qed

theorem resolveVisible_first_collapsed_witness:
  "CHR '':'' \<notin> set ''root/b''
   \<and> resolveVisible {''root''} ''root/b::bar'' = ''root/b''
   \<and> resolveVisible {''root'', ''root/b''} ''root/b::bar'' = ''root/b::bar''
   \<and> resolveVisible {} ''root/b::bar'' = resolveVisible {} ''root/a::foo''
   \<and> updateArrows_edgeMap {} [(''root/b::bar'', ''root/a::foo'')] = []
   \<and> updateArrows_edgeMap {''root''} [(''root/b::bar'', ''root/a::foo'')]
       = [(''root/b>root/a'', ''root/b'', ''root/a'')]"
proof -
  have c: "chain ''root/b'' = [''root'', ''root/b'']" "chain ''root/a'' = [''root'', ''root/a'']"
    by (simp_all add: chain_def Let_def upt_rec)
  have h: "CHR '':'' \<notin> set ''root/b''" "CHR '':'' \<notin> set ''root/a''" by simp_all
  have 1: "resolveVisible {''root''} ''root/b::bar'' = ''root/b''"
    using resolveVisible_first_collapsed[of "{''root''}" "''x''" "''root/b''" "''bar''" "[]" "''x''" "''x''" "[]"] h c
    by simp
  have 2: "resolveVisible {''root'', ''root/b''} ''root/b::bar'' = ''root/b::bar''"
    using resolveVisible_first_collapsed[of "{''root'', ''root/b''}" "''x''" "''root/b''" "''bar''" "[]" "''x''" "''x''" "[]"] h c
    by simp
  have 3: "resolveVisible {} ''root/b::bar'' = ''root''"
    using resolveVisible_first_collapsed[of "{}" "''x''" "''root/b''" "''bar''" "[]" "''x''" "''x''" "[]"] h c
    by simp
  have 4: "resolveVisible {} ''root/a::foo'' = ''root''"
    using resolveVisible_first_collapsed[of "{}" "''x''" "''root/a''" "''foo''" "[]" "''x''" "''x''" "[]"] h c
    by simp
  have 5: "resolveVisible {''root''} ''root/a::foo'' = ''root/a''"
    using resolveVisible_first_collapsed[of "{''root''}" "''x''" "''root/a''" "''foo''" "[]" "''x''" "''x''" "[]"] h c
    by simp
  have 6: "updateArrows_edgeMap {} [(''root/b::bar'', ''root/a::foo'')] = []"
    using resolveVisible_first_collapsed[of "{}" "''x''" "''x''" "''x''" "[]"
        "''root/b::bar''" "''root/a::foo''" "[]"] 3 4
    by (simp add: updateArrows_edgeMap_def)
  have 7: "updateArrows_edgeMap {''root''} [(''root/b::bar'', ''root/a::foo'')]
       = [(''root/b>root/a'', ''root/b'', ''root/a'')]"
    by (simp add: updateArrows_edgeMap_def edgeMap_step_def Let_def 1 5)
  from h 1 2 3 4 6 7 show ?thesis by simp
qed

text \<open>
  Claim C10.  The box that \<open>resolveVisible\<close> returns is visible.  As in \<open>updateArrows\<close>,
  a result that contains \<open>::\<close> is a function identity: then \<open>isFnVisible\<close> holds, the
  owning module and all its strict ancestors are in the Expanded-Set.  Any other result is
  a module path: then \<open>isModVisible\<close> holds, all its strict ancestors are in the
  Expanded-Set.
\<close>

theorem resolveVisible_is_visible:
  "(if has_dcolon (resolveVisible E fnId)
    then isFnVisible E (resolveVisible E fnId)
         \<and> hd (split_dcolon (resolveVisible E fnId)) \<in> E
         \<and> set (strict_ancestors (hd (split_dcolon (resolveVisible E fnId)))) \<subseteq> E
    else isModVisible E (resolveVisible E fnId)
         \<and> set (strict_ancestors (resolveVisible E fnId)) \<subseteq> E)"
  by (rule resolveVisible_visible)

theorem resolveVisible_is_visible_witness:
  "resolveVisible {''a'', ''a/b''} ''a/b/c::f'' = ''a/b/c''
   \<and> \<not> has_dcolon ''a/b/c''
   \<and> isModVisible {''a'', ''a/b''} ''a/b/c''
   \<and> strict_ancestors ''a/b/c'' = [''a'', ''a/b'']"
proof -
  have r: "resolveVisible {''a'', ''a/b''} ''a/b/c::f'' = ''a/b/c''"
    by (simp add: resolveVisible_find chain_def Let_def upt_rec)
  have a: "strict_ancestors ''a/b/c'' = [''a'', ''a/b'']"
    by (simp add: strict_ancestors_def Let_def upt_rec)
  have n: "\<not> has_dcolon ''a/b/c''" by simp
  have "isModVisible {''a'', ''a/b''} ''a/b/c''"
    using resolveVisible_is_visible[of "{''a'', ''a/b''}" "''a/b/c::f''"] n
    unfolding r by simp
  with r a n show ?thesis by simp
qed

subsection \<open>Tree builder\<close>

text \<open>
  Claim C7.  When \<open>parse_speck_tree\<close> returns a graph, its \<open>module_edges\<close> are exactly
  the pairs (owning module of the source, owning module of the target) of the function
  edges whose two owning modules differ, each pair once; the owning module of an endpoint
  is what \<^verbatim>\<open>rsplit("::", 1)[0]\<close> gives, which for an endpoint \<open>m::fn\<close> with a function
  name free of colons is \<open>m\<close>.  A function edge whose endpoints have the same owning
  module stays in \<open>function_edges\<close> and gives no module edge.
\<close>

theorem module_edges_projection:
  assumes "parse_speck_tree lib fuel root_file = Inr g"
  shows "set (g_module_edges g)
           = {(rsplit_dcolon_hd s, rsplit_dcolon_hd t) | s t.
                (s, t) \<in> set (g_function_edges g) \<and> rsplit_dcolon_hd s \<noteq> rsplit_dcolon_hd t}
         \<and> distinct (g_module_edges g)
         \<and> (\<forall>(s, t) \<in> set (g_function_edges g).
               rsplit_dcolon_hd s = rsplit_dcolon_hd t \<longrightarrow>
               (rsplit_dcolon_hd s, rsplit_dcolon_hd t) \<notin> set (g_module_edges g))
         \<and> (\<forall>m fn. CHR '':'' \<notin> set fn \<longrightarrow> rsplit_dcolon_hd (m @ ''::'' @ fn) = m)"
proof -
  from assms obtain st :: pstate where
    g: "g = \<lparr>g_modules = modules st, g_function_edges = function_edges st,
             g_module_edges = fold mod_edge_add (function_edges st) [],
             g_root = path_name lib (path_parent lib root_file)\<rparr>"
    by (auto simp: parse_speck_tree_def Let_def split: sum.splits)
  have s: "set (g_module_edges g)
           = {(rsplit_dcolon_hd s, rsplit_dcolon_hd t) | s t.
                (s, t) \<in> set (g_function_edges g) \<and> rsplit_dcolon_hd s \<noteq> rsplit_dcolon_hd t}"
    unfolding g by (simp add: fold_mod_edge_add(1))
  have d: "distinct (g_module_edges g)"
    unfolding g by (simp add: fold_mod_edge_add(2))
  from s have n: "\<forall>(s, t) \<in> set (g_function_edges g).
               rsplit_dcolon_hd s = rsplit_dcolon_hd t \<longrightarrow>
               (rsplit_dcolon_hd s, rsplit_dcolon_hd t) \<notin> set (g_module_edges g)"
    by auto
  have a: "\<forall>m fn. CHR '':'' \<notin> set fn \<longrightarrow> rsplit_dcolon_hd (m @ ''::'' @ fn) = m"
    using rsplit_dcolon_hd_append by blast
  from s d n a show ?thesis by (intro conjI)
qed

theorem module_edges_projection_witness:
  "parse_speck_tree example_lib 3 ''app/app.speck'' = Inr example_graph
   \<and> g_function_edges example_graph
       = [(''app/b::bar'', ''app/a::foo''), (''app/b::baz'', ''app/b::bar'')]
   \<and> set (g_module_edges example_graph) = {(''app/b'', ''app/a'')}
   \<and> distinct (g_module_edges example_graph)
   \<and> rsplit_dcolon_hd ''app/b::baz'' = rsplit_dcolon_hd ''app/b::bar''"
proof -
  have p: "parse_speck_tree example_lib 3 ''app/app.speck'' = Inr example_graph"
    by code_simp
  have e: "g_function_edges example_graph
       = [(''app/b::bar'', ''app/a::foo''), (''app/b::baz'', ''app/b::bar'')]"
    "g_module_edges example_graph = [(''app/b'', ''app/a'')]"
    by (simp_all add: example_graph_def)
  have r: "rsplit_dcolon_hd ''app/b::baz'' = rsplit_dcolon_hd ''app/b::bar''"
    by (simp add: rsplit_dcolon_hd_def)
  from module_edges_projection[OF p] have "distinct (g_module_edges example_graph)"
    by blast
  with p e r show ?thesis by simp
qed

text \<open>
  Claim C6, at the source tree of \<open>example_lib\<close>, where the declared child \<open>a\<close> has no
  file.  The parser returns without an exception and the children of \<open>app\<close> contain
  \<open>app/a\<close>, but the modules map has no entry for \<open>app/a\<close>: \<open>parse_module\<close> returns before
  the assignment to \<^verbatim>\<open>modules[mod_path]\<close>.  \<open>buildTree\<close>, which reads
  \<^verbatim>\<open>g.modules[modPath]\<close> for every child path, then throws a TypeError.
\<close>

theorem missing_child_has_no_module_entry:
  "parse_speck_tree example_lib 3 ''app/app.speck'' = Inr example_graph
   \<and> read_text example_lib (child_file example_lib ''app'' ''a'') = None
   \<and> (\<exists>m. map_of (g_modules example_graph) ''app'' = Some m \<and> ''app/a'' \<in> set (m_children m))
   \<and> map_of (g_modules example_graph) ''app/a'' = None
   \<and> buildTree 3 example_graph = Inl TypeError"
proof -
  have "parse_speck_tree example_lib 3 ''app/app.speck'' = Inr example_graph"
    by code_simp
  moreover have "read_text example_lib (child_file example_lib ''app'' ''a'') = None"
    by (simp add: example_lib_def)
  moreover have "buildTree 3 example_graph = Inl TypeError"
    by code_simp
  ultimately show ?thesis
    by (simp add: example_graph_def)
qed


subsection \<open>Dependency sorter\<close>

text \<open>
  With a path that occurs twice in the sibling list (the same module declared twice in one
  file) the result is in general not a permutation of the input: here the second
  \<open>r/a\<close> is lost, while without dependencies both copies are kept.
\<close>

theorem sort_children_duplicates_counterexample:
  "sort_children [''r/a'', ''r/a'', ''r/b''] [''b'' \<mapsto> [''a'']] = Inr [''r/b'', ''r/a'']
   \<and> mset [''r/b'', ''r/a''] \<noteq> mset [''r/a'', ''r/a'', ''r/b'']
   \<and> sort_children [''r/a'', ''r/a''] Map.empty = Inr [''r/a'', ''r/a'']
   \<and> \<not> distinct [''r/a'', ''r/a'']"
proof -
  have 1: "sort_children [''r/a'', ''r/a'', ''r/b''] [''b'' \<mapsto> [''a'']] = Inr [''r/b'', ''r/a'']"
    by code_simp
  have 2: "sort_children [''r/a'', ''r/a''] Map.empty = Inr [''r/a'', ''r/a'']"
    by code_simp
  have "size (mset [''r/b'', ''r/a'']) \<noteq> size (mset [''r/a'', ''r/a'', ''r/b''])" by simp
  then have 3: "mset [''r/b'', ''r/a''] \<noteq> mset [''r/a'', ''r/a'', ''r/b'']" by metis
  from 1 2 3 show ?thesis by simp
qed

text \<open>
  Claim C1, amended.  For every sibling list and every dependency map \<open>sort_children\<close>
  returns a list and raises no exception.  When no path occurs twice in the sibling list,
  the result is a permutation of it: first the siblings the loop emitted (\<open>clean\<close>),
  then all the others in their declaration order.  A sibling is emitted exactly when every
  sibling that depends on it is emitted, and it then comes after each of them.
\<close>

theorem sort_children_permutation:
  "(\<exists>r. sort_children cs child_deps = Inr r)
   \<and> (distinct cs \<longrightarrow>
        (\<exists>clean. sort_children cs child_deps = Inr (clean @ filter (\<lambda>c. c \<notin> set clean) cs)
           \<and> mset (clean @ filter (\<lambda>c. c \<notin> set clean) cs) = mset cs
           \<and> (\<forall>d \<in> set cs. d \<in> set clean \<longleftrightarrow>
                 (\<forall>n \<in> set cs. d \<in> set (dep_targets cs child_deps n) \<longrightarrow> n \<in> set clean))
           \<and> (\<forall>d \<in> set clean. \<forall>n \<in> set cs.
                 d \<in> set (dep_targets cs child_deps n) \<longrightarrow> before n d clean)))"
proof (intro conjI impI)
  show "\<exists>r. sort_children cs child_deps = Inr r" by (rule sort_children_total)
next
  assume dist: "distinct cs"
  from sort_children_distinct[OF dist, of child_deps] obtain clean where
    s: "sort_children cs child_deps = Inr (clean @ filter (\<lambda>c. c \<notin> set clean) cs)"
    and d: "distinct clean" "set clean \<subseteq> set cs"
    and z: "\<forall>d \<in> set cs. d \<in> set clean \<longleftrightarrow>
                 (\<forall>n \<in> set cs. d \<in> set (dep_targets cs child_deps n) \<longrightarrow> n \<in> set clean)"
    and o: "\<forall>d \<in> set clean. \<forall>n \<in> set cs.
                 d \<in> set (dep_targets cs child_deps n) \<longrightarrow> before n d clean"
    by blast
  from mset_clean_rest[OF dist d] s z o
  show "\<exists>clean. sort_children cs child_deps = Inr (clean @ filter (\<lambda>c. c \<notin> set clean) cs)
           \<and> mset (clean @ filter (\<lambda>c. c \<notin> set clean) cs) = mset cs
           \<and> (\<forall>d \<in> set cs. d \<in> set clean \<longleftrightarrow>
                 (\<forall>n \<in> set cs. d \<in> set (dep_targets cs child_deps n) \<longrightarrow> n \<in> set clean))
           \<and> (\<forall>d \<in> set clean. \<forall>n \<in> set cs.
                 d \<in> set (dep_targets cs child_deps n) \<longrightarrow> before n d clean)"
    by blast
qed

theorem sort_children_permutation_witness:
  "distinct [''r/a'', ''r/b'', ''r/c'', ''r/d'']
   \<and> sort_children [''r/a'', ''r/b'', ''r/c'', ''r/d'']
        [''a'' \<mapsto> [''b''], ''b'' \<mapsto> [''a''], ''c'' \<mapsto> [''a'', ''zz''], ''d'' \<mapsto> [''d'']]
       = Inr ([''r/c''] @ [''r/a'', ''r/b'', ''r/d''])
   \<and> mset [''r/c'', ''r/a'', ''r/b'', ''r/d''] = mset [''r/a'', ''r/b'', ''r/c'', ''r/d'']"
proof -
  let ?cs = "[''r/a'', ''r/b'', ''r/c'', ''r/d'']"
  let ?deps = "[''a'' \<mapsto> [''b''], ''b'' \<mapsto> [''a''], ''c'' \<mapsto> [''a'', ''zz''], ''d'' \<mapsto> [''d'']]"
  have d: "distinct ?cs" by simp
  have e: "sort_children ?cs ?deps = Inr [''r/c'', ''r/a'', ''r/b'', ''r/d'']" by code_simp
  from sort_children_permutation[of ?cs ?deps] d obtain clean where
    "sort_children ?cs ?deps = Inr (clean @ filter (\<lambda>c. c \<notin> set clean) ?cs)"
    "mset (clean @ filter (\<lambda>c. c \<notin> set clean) ?cs) = mset ?cs"
    by blast
  with e have "mset [''r/c'', ''r/a'', ''r/b'', ''r/d''] = mset ?cs" by simp
  with d e show ?thesis by simp
qed




end
